theory Spec2Isabelle
  imports Complex_Main "HOL-Library.Monad_Syntax"
begin

section \<open>In-place dense kernels of \<^verbatim>\<open>gauss_solve.c\<close>\<close>

text \<open>
  The C file has four kernels over caller-owned buffers: \<^verbatim>\<open>gauss_solve_in_place\<close>,
  \<^verbatim>\<open>lu_in_place\<close>, \<^verbatim>\<open>lu_in_place_reconstruct\<close> and \<^verbatim>\<open>plu\<close>. A buffer
  \<^verbatim>\<open>double A[n][n]\<close> is a store from index pairs to values, \<^verbatim>\<open>double b[n]\<close> and
  \<^verbatim>\<open>int P[n]\<close> are stores from indices to values; a kernel takes the stores and returns
  the updated ones. The kernels return \<^verbatim>\<open>void\<close>: the result is the buffers.

  The dimension \<open>n\<close> and the upward loop counters are naturals: the counters are C
  \<^verbatim>\<open>int\<close>s that stay within \<open>0 .. n\<close>, so they never wrap, and a dimension below 1
  runs no loop body, as \<open>n = 0\<close> does here. The downward counters reach \<open>-1\<close> and are
  integers. The entries of \<open>P\<close> that the kernel writes are row indices, so \<open>P\<close> holds
  naturals.

  The arithmetic is kept abstract: the kernels are written once over any type that has
  the operations the C code applies to a \<^verbatim>\<open>double\<close>. At type \<open>real\<close> this is the exact
  arithmetic of the algorithms; at type \<open>dbl\<close> (defined after the kernels) it is
  arithmetic with the IEEE special values; at type \<open>f64\<close> it is the rounded arithmetic
  of a binary64 double.
\<close>

subsection \<open>Buffers\<close>

type_synonym 'a matrix = "nat \<Rightarrow> nat \<Rightarrow> 'a"
type_synonym 'a vec = "nat \<Rightarrow> 'a"

text \<open>The assignment \<^verbatim>\<open>A[i][j] = v\<close>.\<close>

definition put :: "'a matrix \<Rightarrow> nat \<Rightarrow> nat \<Rightarrow> 'a \<Rightarrow> 'a matrix" where
  "put A i j v = A(i := (A i)(j := v))"

subsection \<open>The \<^verbatim>\<open>for\<close> statement\<close>

text \<open>
  \<^verbatim>\<open>for (int i = lo; i < n; ++i) body\<close> and \<^verbatim>\<open>for (int i = hi; i >= 0; --i) body\<close>.
  A loop that does not return is the value \<open>None\<close>; that every loop of the kernels does
  return is a theorem below, not part of the definition.
\<close>

partial_function (option) for_up ::
  "(nat \<Rightarrow> 's \<Rightarrow> 's option) \<Rightarrow> nat \<Rightarrow> nat \<Rightarrow> 's \<Rightarrow> 's option" where
  "for_up body i n s =
     (if i < n then Option.bind (body i s) (for_up body (Suc i) n) else Some s)"

partial_function (option) for_down ::
  "(nat \<Rightarrow> 's \<Rightarrow> 's option) \<Rightarrow> int \<Rightarrow> 's \<Rightarrow> 's option" where
  "for_down body i s =
     (if 0 \<le> i then Option.bind (body (nat i) s) (for_down body (i - 1)) else Some s)"

subsection \<open>\<^verbatim>\<open>gauss_solve_in_place\<close>\<close>

text \<open>The body of the \<open>i\<close> loop of forward elimination (lines 16 to 22).\<close>

definition gauss_elim_row ::
  "nat \<Rightarrow> nat \<Rightarrow> nat \<Rightarrow> ('a::{plus,minus,times,inverse,abs,ord}) matrix \<times> 'a vec
     \<Rightarrow> ('a matrix \<times> 'a vec) option" where
  "gauss_elim_row n k i = (\<lambda>(A, b). do {
     let A = put A i k (A i k / A k k);
     A \<leftarrow> for_up (\<lambda>j A. Some (put A i j (A i j - A i k * A k j))) (k + 1) n A;
     let b = b(i := b i - A i k * b k);
     Some (A, b) })"

text \<open>The body of the \<open>k\<close> loop (lines 15 to 23).\<close>

definition gauss_elim_step ::
  "nat \<Rightarrow> nat \<Rightarrow> ('a::{plus,minus,times,inverse,abs,ord}) matrix \<times> 'a vec
     \<Rightarrow> ('a matrix \<times> 'a vec) option" where
  "gauss_elim_step n k = for_up (gauss_elim_row n k) (k + 1) n"

text \<open>The first \<open>m\<close> iterations of the \<open>k\<close> loop; all of forward elimination is \<open>m = n\<close>.\<close>

definition gauss_forward ::
  "nat \<Rightarrow> nat \<Rightarrow> ('a::{plus,minus,times,inverse,abs,ord}) matrix \<times> 'a vec
     \<Rightarrow> ('a matrix \<times> 'a vec) option" where
  "gauss_forward n m = for_up (gauss_elim_step n) 0 m"

text \<open>The body of the \<open>i\<close> loop of back-substitution (lines 26 to 29).\<close>

definition gauss_back_row ::
  "nat \<Rightarrow> ('a::{plus,minus,times,inverse,abs,ord}) matrix \<Rightarrow> nat \<Rightarrow> 'a vec \<Rightarrow> 'a vec option" where
  "gauss_back_row n A i b = do {
     b \<leftarrow> for_up (\<lambda>j b. Some (b(i := b i - A i j * b j))) (i + 1) n b;
     Some (b(i := b i / A i i)) }"

definition gauss_solve_in_place ::
  "nat \<Rightarrow> ('a::{plus,minus,times,inverse,abs,ord}) matrix \<Rightarrow> 'a vec
     \<Rightarrow> ('a matrix \<times> 'a vec) option" where
  "gauss_solve_in_place n A b = do {
     (A, b) \<leftarrow> gauss_forward n n (A, b);
     b \<leftarrow> for_down (gauss_back_row n A) (int n - 1) b;
     Some (A, b) }"

text \<open>
  The pivot of step \<open>k\<close>: the value of \<^verbatim>\<open>A[k][k]\<close> when the \<open>k\<close> loop reaches
  iteration \<open>k\<close>.
\<close>

definition gauss_pivot ::
  "nat \<Rightarrow> ('a::{plus,minus,times,inverse,abs,ord}) matrix \<Rightarrow> 'a vec \<Rightarrow> nat \<Rightarrow> 'a option" where
  "gauss_pivot n A b k = map_option (\<lambda>(A', b'). A' k k) (gauss_forward n k (A, b))"

subsection \<open>\<^verbatim>\<open>lu_in_place\<close>\<close>

text \<open>The first \<open>i\<close> loop of iteration \<open>k\<close> (lines 36 to 41): row \<open>k\<close> of \<open>U\<close>.\<close>

definition lu_row_update ::
  "nat \<Rightarrow> nat \<Rightarrow> ('a::{plus,minus,times,inverse,abs,ord}) matrix \<Rightarrow> 'a matrix option" where
  "lu_row_update n k =
     for_up (\<lambda>i. for_up (\<lambda>j A. Some (put A k i (A k i - A k j * A j i))) 0 k) k n"

text \<open>The second \<open>i\<close> loop of iteration \<open>k\<close> (lines 42 to 49): column \<open>k\<close> of \<open>L\<close>.\<close>

definition lu_col_update ::
  "nat \<Rightarrow> nat \<Rightarrow> ('a::{plus,minus,times,inverse,abs,ord}) matrix \<Rightarrow> 'a matrix option" where
  "lu_col_update n k =
     for_up (\<lambda>i A. do {
       A \<leftarrow> for_up (\<lambda>j A. Some (put A i k (A i k - A i j * A j k))) 0 k A;
       Some (put A i k (A i k / A k k)) }) (k + 1) n"

definition lu_step ::
  "nat \<Rightarrow> nat \<Rightarrow> ('a::{plus,minus,times,inverse,abs,ord}) matrix \<Rightarrow> 'a matrix option" where
  "lu_step n k A = do { A \<leftarrow> lu_row_update n k A; lu_col_update n k A }"

text \<open>The first \<open>m\<close> iterations of the \<open>k\<close> loop.\<close>

definition lu_prefix ::
  "nat \<Rightarrow> nat \<Rightarrow> ('a::{plus,minus,times,inverse,abs,ord}) matrix \<Rightarrow> 'a matrix option" where
  "lu_prefix n m = for_up (lu_step n) 0 m"

definition lu_in_place ::
  "nat \<Rightarrow> ('a::{plus,minus,times,inverse,abs,ord}) matrix \<Rightarrow> 'a matrix option" where
  "lu_in_place n A = lu_prefix n n A"

text \<open>
  The divisor of iteration \<open>k\<close>: the value of \<^verbatim>\<open>A[k][k]\<close> read at line 48, that is
  after the first \<open>i\<close> loop of iteration \<open>k\<close>. Line 48 runs only when \<open>k + 1 < n\<close>.
\<close>

definition lu_divisor ::
  "nat \<Rightarrow> ('a::{plus,minus,times,inverse,abs,ord}) matrix \<Rightarrow> nat \<Rightarrow> 'a option" where
  "lu_divisor n A k = do {
     A \<leftarrow> lu_prefix n k A;
     A \<leftarrow> lu_row_update n k A;
     Some (A k k) }"

subsection \<open>\<^verbatim>\<open>lu_in_place_reconstruct\<close>\<close>

text \<open>The first \<open>i\<close> loop of iteration \<open>k\<close> (lines 56 to 61).\<close>

definition recon_col_restore ::
  "nat \<Rightarrow> nat \<Rightarrow> ('a::{plus,minus,times,inverse,abs,ord}) matrix \<Rightarrow> 'a matrix option" where
  "recon_col_restore n k =
     for_up (\<lambda>i A. do {
       let A = put A i k (A i k * A k k);
       for_up (\<lambda>j A. Some (put A i k (A i k + A i j * A j k))) 0 k A }) (k + 1) n"

text \<open>The second \<open>i\<close> loop of iteration \<open>k\<close> (lines 62 to 66).\<close>

definition recon_row_restore ::
  "nat \<Rightarrow> nat \<Rightarrow> ('a::{plus,minus,times,inverse,abs,ord}) matrix \<Rightarrow> 'a matrix option" where
  "recon_row_restore n k =
     for_up (\<lambda>i. for_up (\<lambda>j A. Some (put A k i (A k i + A k j * A j i))) 0 k) k n"

definition recon_step ::
  "nat \<Rightarrow> nat \<Rightarrow> ('a::{plus,minus,times,inverse,abs,ord}) matrix \<Rightarrow> 'a matrix option" where
  "recon_step n k A = do { A \<leftarrow> recon_col_restore n k A; recon_row_restore n k A }"

definition lu_in_place_reconstruct ::
  "nat \<Rightarrow> ('a::{plus,minus,times,inverse,abs,ord}) matrix \<Rightarrow> 'a matrix option" where
  "lu_in_place_reconstruct n A = for_down (recon_step n) (int n - 1) A"

subsection \<open>\<^verbatim>\<open>plu\<close>\<close>

text \<open>The search for the pivot row (lines 79 to 84).\<close>

definition plu_max_row ::
  "nat \<Rightarrow> nat \<Rightarrow> ('a::{plus,minus,times,inverse,abs,ord}) matrix \<Rightarrow> nat option" where
  "plu_max_row n k A =
     for_up (\<lambda>i max_row. Some (if \<bar>A i k\<bar> > \<bar>A max_row k\<bar> then i else max_row)) (k + 1) n k"

text \<open>The body of \<^verbatim>\<open>if (max_row != k)\<close> (lines 88 to 98).\<close>

definition plu_swap ::
  "nat \<Rightarrow> nat \<Rightarrow> nat \<Rightarrow> 'a matrix \<times> nat vec \<Rightarrow> ('a matrix \<times> nat vec) option" where
  "plu_swap n k max_row = (\<lambda>(A, P). do {
     A \<leftarrow> for_up (\<lambda>j A. Some (
            let temp = A k j;
                A = put A k j (A max_row j);
                A = put A max_row j temp
            in A)) 0 n A;
     let temp = P k;
     let P = P(k := P max_row);
     let P = P(max_row := temp);
     Some (A, P) })"

text \<open>Pivot search and conditional swap (lines 79 to 99).\<close>

definition plu_pivot ::
  "nat \<Rightarrow> nat \<Rightarrow> ('a::{plus,minus,times,inverse,abs,ord}) matrix \<times> nat vec
     \<Rightarrow> ('a matrix \<times> nat vec) option" where
  "plu_pivot n k = (\<lambda>(A, P). do {
     max_row \<leftarrow> plu_max_row n k A;
     if max_row \<noteq> k then plu_swap n k max_row (A, P) else Some (A, P) })"

text \<open>The elimination loop of iteration \<open>k\<close> (lines 102 to 108).\<close>

definition plu_eliminate ::
  "nat \<Rightarrow> nat \<Rightarrow> ('a::{plus,minus,times,inverse,abs,ord}) matrix \<Rightarrow> 'a matrix option" where
  "plu_eliminate n k =
     for_up (\<lambda>i A. do {
       let A = put A i k (A i k / A k k);
       for_up (\<lambda>j A. Some (put A i j (A i j - A i k * A k j))) (k + 1) n A }) (k + 1) n"

definition plu_step ::
  "nat \<Rightarrow> nat \<Rightarrow> ('a::{plus,minus,times,inverse,abs,ord}) matrix \<times> nat vec
     \<Rightarrow> ('a matrix \<times> nat vec) option" where
  "plu_step n k s = do {
     (A, P) \<leftarrow> plu_pivot n k s;
     A \<leftarrow> plu_eliminate n k A;
     Some (A, P) }"

text \<open>The initialisation of \<open>P\<close> (lines 72 to 74).\<close>

definition plu_init :: "nat \<Rightarrow> nat vec \<Rightarrow> nat vec option" where
  "plu_init n = for_up (\<lambda>i P. Some (P(i := i))) 0 n"

text \<open>Initialisation and the first \<open>m\<close> iterations of the \<open>k\<close> loop.\<close>

definition plu_prefix ::
  "nat \<Rightarrow> nat \<Rightarrow> ('a::{plus,minus,times,inverse,abs,ord}) matrix \<Rightarrow> nat vec
     \<Rightarrow> ('a matrix \<times> nat vec) option" where
  "plu_prefix n m A P = do {
     P \<leftarrow> plu_init n P;
     for_up (plu_step n) 0 m (A, P) }"

definition plu ::
  "nat \<Rightarrow> ('a::{plus,minus,times,inverse,abs,ord}) matrix \<Rightarrow> nat vec
     \<Rightarrow> ('a matrix \<times> nat vec) option" where
  "plu n A P = plu_prefix n n A P"

text \<open>
  The divisor of iteration \<open>k\<close>: the value of \<^verbatim>\<open>A[k][k]\<close> read at line 103, that is
  after the swap of iteration \<open>k\<close>. Line 103 runs only when \<open>k + 1 < n\<close>.
\<close>

definition plu_divisor ::
  "nat \<Rightarrow> ('a::{plus,minus,times,inverse,abs,ord}) matrix \<Rightarrow> nat vec \<Rightarrow> nat \<Rightarrow> 'a option" where
  "plu_divisor n A P k = do {
     s \<leftarrow> plu_prefix n k A P;
     (A, P) \<leftarrow> plu_pivot n k s;
     Some (A k k) }"

section \<open>Arithmetic with the IEEE special values\<close>

text \<open>
  A \<^verbatim>\<open>double\<close> that is a number, an infinity or a NaN. The operations follow IEEE 754
  on the special values: a NaN operand gives NaN, \<open>0 / 0\<close>, \<open>\<infinity> - \<infinity>\<close>, \<open>0 * \<infinity>\<close> and
  \<open>\<infinity> / \<infinity>\<close> give NaN, a nonzero number divided by zero gives an infinity, and every
  comparison with a NaN is false. Rounding and overflow of finite results and the sign of
  zero are left out: finite results are exact and the two zeros are one. This type is
  used for the behaviour of \<^verbatim>\<open>plu\<close> on a zero column only, where the C code computes
  \<open>0 / 0\<close>.
\<close>

datatype dbl = Fin real | PInf | NInf | NaN

instantiation dbl :: "{plus,minus,times,inverse,abs,ord}"
begin

fun plus_dbl :: "dbl \<Rightarrow> dbl \<Rightarrow> dbl" where
  "plus_dbl NaN _ = NaN"
| "plus_dbl _ NaN = NaN"
| "plus_dbl (Fin x) (Fin y) = Fin (x + y)"
| "plus_dbl PInf NInf = NaN"
| "plus_dbl NInf PInf = NaN"
| "plus_dbl PInf _ = PInf"
| "plus_dbl NInf _ = NInf"
| "plus_dbl (Fin x) y = y"

fun minus_dbl :: "dbl \<Rightarrow> dbl \<Rightarrow> dbl" where
  "minus_dbl NaN _ = NaN"
| "minus_dbl _ NaN = NaN"
| "minus_dbl (Fin x) (Fin y) = Fin (x - y)"
| "minus_dbl PInf PInf = NaN"
| "minus_dbl NInf NInf = NaN"
| "minus_dbl PInf _ = PInf"
| "minus_dbl NInf _ = NInf"
| "minus_dbl (Fin x) PInf = NInf"
| "minus_dbl (Fin x) NInf = PInf"

fun times_dbl :: "dbl \<Rightarrow> dbl \<Rightarrow> dbl" where
  "times_dbl NaN _ = NaN"
| "times_dbl _ NaN = NaN"
| "times_dbl (Fin x) (Fin y) = Fin (x * y)"
| "times_dbl (Fin x) PInf = (if x = 0 then NaN else if 0 < x then PInf else NInf)"
| "times_dbl (Fin x) NInf = (if x = 0 then NaN else if 0 < x then NInf else PInf)"
| "times_dbl PInf (Fin y) = (if y = 0 then NaN else if 0 < y then PInf else NInf)"
| "times_dbl NInf (Fin y) = (if y = 0 then NaN else if 0 < y then NInf else PInf)"
| "times_dbl PInf PInf = PInf"
| "times_dbl PInf NInf = NInf"
| "times_dbl NInf PInf = NInf"
| "times_dbl NInf NInf = PInf"

fun divide_dbl :: "dbl \<Rightarrow> dbl \<Rightarrow> dbl" where
  "divide_dbl NaN _ = NaN"
| "divide_dbl _ NaN = NaN"
| "divide_dbl (Fin x) (Fin y) =
     (if y = 0 then (if x = 0 then NaN else if 0 < x then PInf else NInf) else Fin (x / y))"
| "divide_dbl (Fin x) _ = Fin 0"
| "divide_dbl PInf (Fin y) = (if 0 \<le> y then PInf else NInf)"
| "divide_dbl NInf (Fin y) = (if 0 \<le> y then NInf else PInf)"
| "divide_dbl _ _ = NaN"

fun inverse_dbl :: "dbl \<Rightarrow> dbl" where
  "inverse_dbl NaN = NaN"
| "inverse_dbl (Fin y) = (if y = 0 then PInf else Fin (1 / y))"
| "inverse_dbl _ = Fin 0"

fun abs_dbl :: "dbl \<Rightarrow> dbl" where
  "abs_dbl (Fin x) = Fin \<bar>x\<bar>"
| "abs_dbl PInf = PInf"
| "abs_dbl NInf = PInf"
| "abs_dbl NaN = NaN"

fun less_dbl :: "dbl \<Rightarrow> dbl \<Rightarrow> bool" where
  "less_dbl (Fin x) (Fin y) = (x < y)"
| "less_dbl (Fin x) PInf = True"
| "less_dbl NInf (Fin y) = True"
| "less_dbl NInf PInf = True"
| "less_dbl _ _ = False"

definition less_eq_dbl :: "dbl \<Rightarrow> dbl \<Rightarrow> bool" where
  "less_eq_dbl x y = (x < y \<or> (x = y \<and> x \<noteq> NaN))"

instance ..

end

fun is_finite :: "dbl \<Rightarrow> bool" where
  "is_finite (Fin x) = True"
| "is_finite _ = False"

section \<open>Arithmetic with rounding\<close>

text \<open>
  The arithmetic of a binary64 \<^verbatim>\<open>double\<close>: an operation returns the exact result of
  the operation on \<open>dbl\<close>, rounded to the nearest double, ties to the even significand.
  A double has 53 significant bits and a least exponent of -1022, so a number \<open>x\<close> is
  rounded to a multiple of \<open>2 ^ e\<close> where \<open>e\<close> is the greater of \<open>\<lfloor>log 2 \<bar>x\<bar>\<rfloor>\<close> and -1022,
  less 52; a rounded result above the largest double, \<open>(2 ^ 53 - 1) * 2 ^ 971\<close>, is an
  infinity. Comparisons and \<^verbatim>\<open>fabs\<close> are exact. The sign of zero is left out, as in
  \<open>dbl\<close>.
\<close>

definition pow2 :: "int \<Rightarrow> real" where
  "pow2 e = (if 0 \<le> e then 2 ^ nat e else 1 / 2 ^ nat (- e))"

definition rne :: "int \<Rightarrow> real \<Rightarrow> real" where
  "rne e x = (let q = x / pow2 e; f = \<lfloor>q\<rfloor>; r = q - of_int f
              in (if r < 1 / 2 \<or> (r = 1 / 2 \<and> even f) then of_int f else of_int (f + 1)) * pow2 e)"

definition ulp_exp :: "real \<Rightarrow> int" where
  "ulp_exp x = max \<lfloor>log 2 \<bar>x\<bar>\<rfloor> (- 1022) - 52"

definition round_real :: "real \<Rightarrow> real" where
  "round_real x = (if x = 0 then 0 else rne (ulp_exp x) x)"

definition max_f64 :: real where
  "max_f64 = (2 ^ 53 - 1) * 2 ^ 971"

fun round_dbl :: "dbl \<Rightarrow> dbl" where
  "round_dbl (Fin x) =
     (let r = round_real x
      in if max_f64 < \<bar>r\<bar> then (if 0 < r then PInf else NInf) else Fin r)"
| "round_dbl d = d"

datatype f64 = F64 dbl

instantiation f64 :: "{plus,minus,times,inverse,abs,ord}"
begin

fun plus_f64 :: "f64 \<Rightarrow> f64 \<Rightarrow> f64" where
  "plus_f64 (F64 x) (F64 y) = F64 (round_dbl (x + y))"

fun minus_f64 :: "f64 \<Rightarrow> f64 \<Rightarrow> f64" where
  "minus_f64 (F64 x) (F64 y) = F64 (round_dbl (x - y))"

fun times_f64 :: "f64 \<Rightarrow> f64 \<Rightarrow> f64" where
  "times_f64 (F64 x) (F64 y) = F64 (round_dbl (x * y))"

fun divide_f64 :: "f64 \<Rightarrow> f64 \<Rightarrow> f64" where
  "divide_f64 (F64 x) (F64 y) = F64 (round_dbl (x / y))"

fun inverse_f64 :: "f64 \<Rightarrow> f64" where
  "inverse_f64 (F64 x) = F64 (round_dbl (inverse x))"

fun abs_f64 :: "f64 \<Rightarrow> f64" where
  "abs_f64 (F64 x) = F64 \<bar>x\<bar>"

fun less_f64 :: "f64 \<Rightarrow> f64 \<Rightarrow> bool" where
  "less_f64 (F64 x) (F64 y) = (x < y)"

fun less_eq_f64 :: "f64 \<Rightarrow> f64 \<Rightarrow> bool" where
  "less_eq_f64 (F64 x) (F64 y) = (x \<le> y)"

instance ..

end

fun f64_real :: "f64 \<Rightarrow> real" where
  "f64_real (F64 (Fin x)) = x"
| "f64_real _ = 0"

section \<open>Inputs of the test driver\<close>

text \<open>
  A buffer filled from a literal, as the driver's initialisers do; entries outside the
  literal hold the given default.
\<close>

definition mat_of :: "'a list list \<Rightarrow> 'a \<Rightarrow> 'a matrix" where
  "mat_of rows d = (\<lambda>i j. if i < length rows \<and> j < length (rows ! i) then rows ! i ! j else d)"

definition vec_of :: "'a list \<Rightarrow> 'a \<Rightarrow> 'a vec" where
  "vec_of xs d = (\<lambda>i. if i < length xs then xs ! i else d)"

text \<open>The matrix and right-hand side of \<^verbatim>\<open>test_gauss_solve\<close> and \<^verbatim>\<open>test_lu_in_place\<close>.\<close>

definition A_test :: "real matrix" where
  "A_test = mat_of [[2, 3, -1], [4, 1, 2], [-2, 7, 2]] 0"

definition b_test :: "real vec" where
  "b_test = vec_of [5, 6, 3] 0"

text \<open>The example matrix of the \<^verbatim>\<open>plu\<close> driver.\<close>

definition A_plu :: "real matrix" where
  "A_plu = mat_of [[2, -1, -2], [-4, 6, 3], [-4, -2, 8]] 0"


definition A_singular :: "dbl matrix" where
  "A_singular = mat_of [[Fin 0, Fin 1], [Fin 0, Fin 2]] NaN"

definition A_one :: "real matrix" where
  "A_one = mat_of [[4]] 0"

definition b_one :: "real vec" where
  "b_one = vec_of [2] 0"

section \<open>Two inputs on which rounding shows\<close>

text \<open>
  The matrix \<open>[[3, 1], [1, 1]]\<close>: its factorisation stores the double nearest to \<open>1/3\<close>
  and then the double nearest to \<open>1 - 1/3\<close>.
\<close>

definition third :: real where
  "third = 6004799503160661 / 2 ^ 54"

definition two_thirds :: real where
  "two_thirds = 6004799503160662 / 2 ^ 53"

definition A_third :: "f64 matrix" where
  "A_third = mat_of [[F64 (Fin 3), F64 (Fin 1)], [F64 (Fin 1), F64 (Fin 1)]] (F64 (Fin 0))"

text \<open>What \<^verbatim>\<open>lu_in_place\<close> and \<^verbatim>\<open>plu\<close> leave on it.\<close>

definition F_third :: "f64 matrix" where
  "F_third = put (put A_third 1 0 (F64 (Fin third))) 1 1 (F64 (Fin two_thirds))"

text \<open>
  The matrix \<open>[[1 / 2 ^ 70, 1], [1, 1]]\<close>: the multiplier is \<open>2 ^ 70\<close>, and
  \<open>1 - 2 ^ 70\<close> is rounded to \<open>- (2 ^ 70)\<close>.
\<close>

definition tiny :: real where
  "tiny = 1 / 2 ^ 70"

definition huge :: real where
  "huge = 2 ^ 70"

definition A_tiny :: "f64 matrix" where
  "A_tiny = mat_of [[F64 (Fin tiny), F64 (Fin 1)], [F64 (Fin 1), F64 (Fin 1)]] (F64 (Fin 0))"

text \<open>What \<^verbatim>\<open>lu_in_place\<close> leaves on it, and what \<^verbatim>\<open>lu_in_place_reconstruct\<close> makes of
  that.\<close>

definition F_tiny :: "f64 matrix" where
  "F_tiny = put (put A_tiny 1 0 (F64 (Fin huge))) 1 1 (F64 (Fin (- huge)))"

definition R_tiny :: "f64 matrix" where
  "R_tiny = put (put F_tiny 1 1 (F64 (Fin 0))) 1 0 (F64 (Fin 1))"

text \<open>The numbers held by a buffer of finite doubles.\<close>

definition f64_reals :: "f64 matrix \<Rightarrow> real matrix" where
  "f64_reals A = (\<lambda>i j. f64_real (A i j))"

text \<open>
  Modelled from the spec: \<^verbatim>\<open>frobenius_norm_dist\<close> is declared in \<^verbatim>\<open>helpers.h\<close>, which is
  not among the sources. The glossary has it as the square root of the sum of squared
  elementwise differences between two matrices.
\<close>

definition frobenius_dist :: "nat \<Rightarrow> real matrix \<Rightarrow> real matrix \<Rightarrow> real" where
  "frobenius_dist n X Y = sqrt (\<Sum>i<n. \<Sum>j<n. (X i j - Y i j) ^ 2)"

section \<open>Reading the factors from the packed buffer\<close>

text \<open>
  \<open>L\<close> is unit lower triangular with its strict lower part taken from the buffer, \<open>U\<close> is
  the part of the buffer on and above the diagonal; \<open>mat_mul n\<close> is the product of
  \<open>n \<times> n\<close> matrices.
\<close>

definition L_of :: "real matrix \<Rightarrow> real matrix" where
  "L_of A = (\<lambda>i j. if j < i then A i j else if j = i then 1 else 0)"

definition U_of :: "real matrix \<Rightarrow> real matrix" where
  "U_of A = (\<lambda>i j. if i \<le> j then A i j else 0)"

definition mat_mul :: "nat \<Rightarrow> real matrix \<Rightarrow> real matrix \<Rightarrow> real matrix" where
  "mat_mul n X Y = (\<lambda>i j. \<Sum>p<n. X i p * Y p j)"

section \<open>Each loop in closed form\<close>

text \<open>
  What each loop of the kernels leaves in the buffers, entry by entry. These functions
  are not part of the model; each is proved equal to the loop it describes, and the
  proofs of the properties work on them.
\<close>

text \<open>Elimination of column \<open>k\<close> in the rows \<open>k < i < hi\<close>, on the matrix and on the
  right-hand side.\<close>

definition elim_rows :: "nat \<Rightarrow> nat \<Rightarrow> nat \<Rightarrow> ('a::{plus,minus,times,inverse,abs,ord}) matrix \<Rightarrow> 'a matrix" where
  "elim_rows n hi k A = (\<lambda>i j. if k < i \<and> i < hi then
       (if j = k then A i k / A k k
        else if k < j \<and> j < n then A i j - A i k / A k k * A k j
        else A i j)
     else A i j)"

definition elim_rhs :: "nat \<Rightarrow> nat \<Rightarrow> ('a::{plus,minus,times,inverse,abs,ord}) matrix \<Rightarrow> 'a vec \<Rightarrow> 'a vec" where
  "elim_rhs hi k A b = (\<lambda>i. if k < i \<and> i < hi then b i - A i k / A k k * b k else b i)"

definition gauss_fwd_pure :: "nat \<Rightarrow> nat \<Rightarrow> ('a::{plus,minus,times,inverse,abs,ord}) matrix \<times> 'a vec \<Rightarrow> 'a matrix \<times> 'a vec" where
  "gauss_fwd_pure n m = fold (\<lambda>k (A, b). (elim_rows n n k A, elim_rhs n k A b)) [0..<m]"

definition back_row_pure :: "nat \<Rightarrow> real matrix \<Rightarrow> nat \<Rightarrow> real vec \<Rightarrow> real vec" where
  "back_row_pure n A i b = b(i := (b i - (\<Sum>j\<in>{i + 1..<n}. A i j * b j)) / A i i)"

text \<open>The first and the second loop of an iteration of \<^verbatim>\<open>lu_in_place\<close> and of
  \<^verbatim>\<open>lu_in_place_reconstruct\<close>.\<close>

definition lu_row_pure :: "nat \<Rightarrow> nat \<Rightarrow> real matrix \<Rightarrow> real matrix" where
  "lu_row_pure hi k A = (\<lambda>i j. if i = k \<and> k \<le> j \<and> j < hi
       then A k j - (\<Sum>p<k. A k p * A p j) else A i j)"

definition lu_col_pure :: "nat \<Rightarrow> nat \<Rightarrow> real matrix \<Rightarrow> real matrix" where
  "lu_col_pure hi k A = (\<lambda>i j. if j = k \<and> k < i \<and> i < hi
       then (A i k - (\<Sum>p<k. A i p * A p k)) / A k k else A i j)"

definition lu_step_pure :: "nat \<Rightarrow> nat \<Rightarrow> real matrix \<Rightarrow> real matrix" where
  "lu_step_pure n k A = lu_col_pure n k (lu_row_pure n k A)"

definition lu_pure :: "nat \<Rightarrow> nat \<Rightarrow> real matrix \<Rightarrow> real matrix" where
  "lu_pure n m = fold (lu_step_pure n) [0..<m]"

definition recon_col_pure :: "nat \<Rightarrow> nat \<Rightarrow> real matrix \<Rightarrow> real matrix" where
  "recon_col_pure hi k A = (\<lambda>i j. if j = k \<and> k < i \<and> i < hi
       then A i k * A k k + (\<Sum>p<k. A i p * A p k) else A i j)"

definition recon_row_pure :: "nat \<Rightarrow> nat \<Rightarrow> real matrix \<Rightarrow> real matrix" where
  "recon_row_pure hi k A = (\<lambda>i j. if i = k \<and> k \<le> j \<and> j < hi
       then A k j + (\<Sum>p<k. A k p * A p j) else A i j)"

definition recon_step_pure :: "nat \<Rightarrow> nat \<Rightarrow> real matrix \<Rightarrow> real matrix" where
  "recon_step_pure n k A = recon_row_pure n k (recon_col_pure n k A)"

definition recon_pure :: "nat \<Rightarrow> nat \<Rightarrow> real matrix \<Rightarrow> real matrix" where
  "recon_pure n m = fold (recon_step_pure n) (rev [0..<m])"

text \<open>Pivot search, row swap and initialisation of \<^verbatim>\<open>plu\<close>.\<close>

definition max_row_pure :: "nat \<Rightarrow> nat \<Rightarrow> ('a::{plus,minus,times,inverse,abs,ord}) matrix \<Rightarrow> nat" where
  "max_row_pure hi k A =
     fold (\<lambda>i max_row. if \<bar>A i k\<bar> > \<bar>A max_row k\<bar> then i else max_row) [k + 1..<hi] k"

definition swap_rows :: "nat \<Rightarrow> nat \<Rightarrow> nat \<Rightarrow> 'a matrix \<Rightarrow> 'a matrix" where
  "swap_rows hi k m A = (\<lambda>i j. if j < hi then (if i = k then A m j else if i = m then A k j else A i j) else A i j)"

definition swap_perm :: "nat \<Rightarrow> nat \<Rightarrow> nat vec \<Rightarrow> nat vec" where
  "swap_perm k m P = (P(k := P m))(m := P k)"

definition init_perm :: "nat \<Rightarrow> nat vec \<Rightarrow> nat vec" where
  "init_perm n P = (\<lambda>i. if i < n then i else P i)"

definition plu_step_pure :: "nat \<Rightarrow> nat \<Rightarrow> ('a::{plus,minus,times,inverse,abs,ord}) matrix \<times> nat vec \<Rightarrow> 'a matrix \<times> nat vec" where
  "plu_step_pure n k = (\<lambda>(A, P).
     (elim_rows n n k (swap_rows n k (max_row_pure n k A) A), swap_perm k (max_row_pure n k A) P))"

definition plu_pure :: "nat \<Rightarrow> nat \<Rightarrow> ('a::{plus,minus,times,inverse,abs,ord}) matrix \<Rightarrow> nat vec \<Rightarrow> 'a matrix \<times> nat vec" where
  "plu_pure n m A P = fold (plu_step_pure n) [0..<m] (A, init_perm n P)"

section \<open>Invariants of the factorisations\<close>

text \<open>
  \<open>lu_eqs n T F\<close>: the packed buffer \<open>F\<close> satisfies the equations of \<open>T = L U\<close> on the
  \<open>n \<times> n\<close> block. \<open>ginv n k T A\<close> is the state of right-looking elimination
  (\<^verbatim>\<open>gauss_solve_in_place\<close>, \<^verbatim>\<open>plu\<close>) after \<open>k\<close> pivots: columns below \<open>k\<close> hold
  multipliers, the rest holds the Schur complement. \<open>binv\<close> is the same for the
  right-hand side. \<open>linv n k T A\<close> is the state of \<^verbatim>\<open>lu_in_place\<close> after \<open>k\<close> iterations:
  rows and columns below \<open>k\<close> are final, the rest is untouched.
\<close>

definition lu_eqs :: "nat \<Rightarrow> real matrix \<Rightarrow> real matrix \<Rightarrow> bool" where
  "lu_eqs n T F = (\<forall>i<n. \<forall>j<n. T i j =
      (if j < i then (\<Sum>p<j. F i p * F p j) + F i j * F j j
       else (\<Sum>p<i. F i p * F p j) + F i j))"

definition ginv :: "nat \<Rightarrow> nat \<Rightarrow> real matrix \<Rightarrow> real matrix \<Rightarrow> bool" where
  "ginv n k T A = (\<forall>i<n. \<forall>j<n. T i j =
      (if j < k \<and> j < i then (\<Sum>p<j. A i p * A p j) + A i j * A j j
       else (\<Sum>p<min i k. A i p * A p j) + A i j))"

definition binv :: "nat \<Rightarrow> nat \<Rightarrow> real vec \<Rightarrow> real matrix \<Rightarrow> real vec \<Rightarrow> bool" where
  "binv n k b0 A b = (\<forall>i<n. b0 i = (\<Sum>p<min i k. A i p * b p) + b i)"

definition linv :: "nat \<Rightarrow> nat \<Rightarrow> real matrix \<Rightarrow> real matrix \<Rightarrow> bool" where
  "linv n k T A = (\<forall>i<n. \<forall>j<n. T i j =
      (if min i j < k then
         (if j < i then (\<Sum>p<j. A i p * A p j) + A i j * A j j
          else (\<Sum>p<i. A i p * A p j) + A i j)
       else A i j))"

section \<open>A loop with a total body is a fold\<close>

lemma put_apply [simp]: "put A i j v i' j' = (if i' = i \<and> j' = j then v else A i' j')"
  by (simp add: put_def)

lemma for_up_pure:
  assumes "\<And>i s. lo \<le> i \<Longrightarrow> i < hi \<Longrightarrow> body i s = Some (f i s)"
  shows "for_up body lo hi s = Some (fold f [lo..<hi] s)"
  using assms
proof (induction "hi - lo" arbitrary: lo s)
  case 0
  then show ?case by (simp add: for_up.simps)
next
  case (Suc d)
  have lt: "lo < hi" using Suc(2) by simp
  have "for_up body (Suc lo) hi (f lo s) = Some (fold f [Suc lo..<hi] (f lo s))"
    using Suc(2) by (intro Suc(1)) (simp_all add: Suc(3))
  then show ?case using lt Suc(3)[of lo s]
    by (subst for_up.simps) (simp add: upt_conv_Cons)
qed

lemma for_down_pure:
  assumes "\<And>i s. i < n \<Longrightarrow> body i s = Some (f i s)"
  shows "for_down body (int n - 1) s = Some (fold f (rev [0..<n]) s)"
  using assms
proof (induction n arbitrary: s)
  case 0
  then show ?case by (subst for_down.simps) simp
next
  case (Suc n)
  have "for_down body (int n - 1) (f n s) = Some (fold f (rev [0..<n]) (f n s))"
    by (intro Suc(1)) (simp add: Suc(2))
  then show ?case using Suc(2)[of n s]
    by (subst for_down.simps) simp
qed

lemma for_up_returns:
  assumes "\<And>i s. \<exists>s'. body i s = Some s'"
  shows "\<exists>s'. for_up body lo hi s = Some s'"
proof (induction "hi - lo" arbitrary: lo s)
  case 0
  then show ?case by (simp add: for_up.simps)
next
  case (Suc d)
  obtain s1 where s1: "body lo s = Some s1" using assms by blast
  have "\<exists>s'. for_up body (Suc lo) hi s1 = Some s'"
    using Suc(2) by (intro Suc(1)) simp
  then show ?case using s1 by (subst for_up.simps) simp
qed

lemma for_down_returns:
  assumes "\<And>i s. \<exists>s'. body i s = Some s'"
  shows "\<exists>s'. for_down body i s = Some s'"
proof (induction "nat (i + 1)" arbitrary: i s)
  case 0
  then show ?case by (subst for_down.simps) simp
next
  case (Suc d)
  obtain s1 where s1: "body (nat i) s = Some s1" using assms by blast
  have "\<exists>s'. for_down body (i - 1) s1 = Some s'"
    using Suc(2) by (intro Suc(1)) simp
  then show ?case using s1 by (subst for_down.simps) simp
qed

lemma fold_upt_Suc: "lo \<le> hi \<Longrightarrow> fold f [lo..<Suc hi] s = f hi (fold f [lo..<hi] s)"
  by simp

section \<open>Proofs of the closed forms\<close>

subsection \<open>Elimination\<close>

lemma axpy_row:
  fixes A :: "('a::{plus,minus,times,inverse,abs,ord}) matrix"
  assumes "k < lo" "i \<noteq> k"
  shows "fold (\<lambda>j A. put A i j (A i j - A i k * A k j)) [lo..<hi] A =
         (\<lambda>i' j'. if i' = i \<and> lo \<le> j' \<and> j' < hi then A i j' - A i k * A k j' else A i' j')"
proof (induction hi)
  case 0
  then show ?case by simp
next
  case (Suc hi)
  show ?case
  proof (cases "lo \<le> hi")
    case True
    show ?thesis
      unfolding fold_upt_Suc[OF True] Suc
      using assms True by (intro ext) (auto simp: less_Suc_eq)
  next
    case False
    then show ?thesis by (auto simp: fun_eq_iff)
  qed
qed

lemma elim_row_fold:
  fixes A :: "('a::{plus,minus,times,inverse,abs,ord}) matrix"
  assumes "k < i"
  shows "fold (\<lambda>j A. put A i j (A i j - A i k * A k j)) [k + 1..<n] (put A i k (A i k / A k k))
         = (\<lambda>i' j'. if i' = i then
               (if j' = k then A i k / A k k
                else if k < j' \<and> j' < n then A i j' - A i k / A k k * A k j'
                else A i j')
             else A i' j')"
  using assms by (subst axpy_row) (auto simp: fun_eq_iff)

lemma plu_eliminate_fold:
  fixes A :: "('a::{plus,minus,times,inverse,abs,ord}) matrix"
  shows "fold (\<lambda>i A. fold (\<lambda>j A. put A i j (A i j - A i k * A k j)) [k + 1..<n]
                  (put A i k (A i k / A k k))) [k + 1..<hi] A = elim_rows n hi k A"
proof (induction hi)
  case 0
  then show ?case by (simp add: elim_rows_def)
next
  case (Suc hi)
  show ?case
  proof (cases "k + 1 \<le> hi")
    case True
    then have "k < hi" by simp
    show ?thesis
      unfolding fold_upt_Suc[OF True] Suc elim_row_fold[OF \<open>k < hi\<close>]
      using True by (intro ext) (auto simp: less_Suc_eq elim_rows_def)
  next
    case False
    then show ?thesis by (auto simp: fun_eq_iff elim_rows_def)
  qed
qed

lemma plu_eliminate_closed:
  fixes A :: "('a::{plus,minus,times,inverse,abs,ord}) matrix"
  shows "plu_eliminate n k A = Some (elim_rows n n k A)"
  unfolding plu_eliminate_def plu_eliminate_fold[symmetric]
  by (intro for_up_pure) (simp add: for_up_pure[where f = "\<lambda>j A. put A _ j (A _ j - A _ k * A k j)"])

lemma gauss_step_fold:
  fixes A :: "('a::{plus,minus,times,inverse,abs,ord}) matrix" and n k :: nat
  defines "F \<equiv> \<lambda>i (A, b).
           (let A' = fold (\<lambda>j A. put A i j (A i j - A i k * A k j)) [k + 1..<n]
                  (put A i k (A i k / A k k)) in (A', b(i := b i - A' i k * b k)))"
  shows "fold F [k + 1..<hi] (A, b) = (elim_rows n hi k A, elim_rhs hi k A b)"
proof (induction hi)
  case 0
  then show ?case by (simp add: elim_rows_def elim_rhs_def)
next
  case (Suc hi)
  show ?case
  proof (cases "k + 1 \<le> hi")
    case True
    then have "k < hi" by simp
    have "fold F [k + 1..<Suc hi] (A, b) = F hi (elim_rows n hi k A, elim_rhs hi k A b)"
      using True Suc by simp
    also have "\<dots> = (elim_rows n (Suc hi) k A, elim_rhs (Suc hi) k A b)"
      unfolding F_def prod.case elim_row_fold[OF \<open>k < hi\<close>] Let_def
      using True by (auto simp: less_Suc_eq elim_rows_def elim_rhs_def fun_eq_iff)
    finally show ?thesis .
  next
    case False
    then show ?thesis by (auto simp: fun_eq_iff elim_rows_def elim_rhs_def)
  qed
qed

lemma gauss_elim_step_closed:
  fixes A :: "('a::{plus,minus,times,inverse,abs,ord}) matrix"
  shows "gauss_elim_step n k (A, b) = Some (elim_rows n n k A, elim_rhs n k A b)"
  unfolding gauss_elim_step_def gauss_step_fold[symmetric]
  by (intro for_up_pure)
     (simp add: gauss_elim_row_def split_beta Let_def
        for_up_pure[where f = "\<lambda>j A. put A _ j (A _ j - A _ k * A k j)"])

lemma elim_rows_apply:
  "elim_rows n hi k A i j = (if k < i \<and> i < hi then
       (if j = k then A i k / A k k
        else if k < j \<and> j < n then A i j - A i k / A k k * A k j
        else A i j)
     else A i j)"
  by (simp add: elim_rows_def)

lemma elim_rows_upper: "i \<le> k \<Longrightarrow> elim_rows n hi k A i j = A i j"
  by (simp add: elim_rows_def)

lemma elim_rows_left: "j < k \<Longrightarrow> elim_rows n hi k A i j = A i j"
  by (simp add: elim_rows_def)

subsection \<open>Accumulated dot products of \<^verbatim>\<open>lu_in_place\<close> and its inverse\<close>

lemma dot_acc_minus:
  fixes A :: "real matrix"
  assumes "m \<le> r" "m \<le> c"
  shows "fold (\<lambda>j A. put A r c (A r c - A r j * A j c)) [0..<m] A =
         put A r c (A r c - (\<Sum>j<m. A r j * A j c))"
  using assms
proof (induction m)
  case 0
  then show ?case by (simp add: fun_eq_iff)
next
  case (Suc m)
  have IH: "fold (\<lambda>j A. put A r c (A r c - A r j * A j c)) [0..<m] A =
         put A r c (A r c - (\<Sum>j<m. A r j * A j c))"
    by (rule Suc.IH) (use Suc.prems in simp_all)
  show ?case
    unfolding fold_upt_Suc[OF le0] IH
    using Suc.prems by (intro ext) auto
qed

lemma dot_acc_plus:
  fixes A :: "real matrix"
  assumes "m \<le> r" "m \<le> c"
  shows "fold (\<lambda>j A. put A r c (A r c + A r j * A j c)) [0..<m] A =
         put A r c (A r c + (\<Sum>j<m. A r j * A j c))"
  using assms
proof (induction m)
  case 0
  then show ?case by (simp add: fun_eq_iff)
next
  case (Suc m)
  have IH: "fold (\<lambda>j A. put A r c (A r c + A r j * A j c)) [0..<m] A =
         put A r c (A r c + (\<Sum>j<m. A r j * A j c))"
    by (rule Suc.IH) (use Suc.prems in simp_all)
  show ?case
    unfolding fold_upt_Suc[OF le0] IH
    using Suc.prems by (intro ext) auto
qed

lemma lu_row_fold:
  fixes A :: "real matrix"
  shows "fold (\<lambda>i. fold (\<lambda>j A. put A k i (A k i - A k j * A j i)) [0..<k]) [k..<hi] A
         = lu_row_pure hi k A"
proof (induction hi)
  case 0
  then show ?case by (simp add: lu_row_pure_def)
next
  case (Suc hi)
  show ?case
  proof (cases "k \<le> hi")
    case True
    show ?thesis
      unfolding fold_upt_Suc[OF True] Suc dot_acc_minus[OF le_refl True]
      using True by (intro ext) (auto simp: less_Suc_eq lu_row_pure_def)
  next
    case False
    then show ?thesis by (auto simp: fun_eq_iff lu_row_pure_def)
  qed
qed

lemma recon_row_fold:
  fixes A :: "real matrix"
  shows "fold (\<lambda>i. fold (\<lambda>j A. put A k i (A k i + A k j * A j i)) [0..<k]) [k..<hi] A
         = recon_row_pure hi k A"
proof (induction hi)
  case 0
  then show ?case by (simp add: recon_row_pure_def)
next
  case (Suc hi)
  show ?case
  proof (cases "k \<le> hi")
    case True
    show ?thesis
      unfolding fold_upt_Suc[OF True] Suc dot_acc_plus[OF le_refl True]
      using True by (intro ext) (auto simp: less_Suc_eq recon_row_pure_def)
  next
    case False
    then show ?thesis by (auto simp: fun_eq_iff recon_row_pure_def)
  qed
qed

lemma lu_col_fold:
  fixes A :: "real matrix" and k :: nat
  defines "F \<equiv> \<lambda>i A. let A = fold (\<lambda>j A. put A i k (A i k - A i j * A j k)) [0..<k] A
                      in put A i k (A i k / A k k)"
  shows "fold F [k + 1..<hi] A = lu_col_pure hi k A"
proof (induction hi)
  case 0
  then show ?case by (simp add: lu_col_pure_def)
next
  case (Suc hi)
  show ?case
  proof (cases "k + 1 \<le> hi")
    case True
    then have kh: "k \<le> hi" by simp
    have "fold F [k + 1..<Suc hi] A = F hi (lu_col_pure hi k A)"
      using True Suc by simp
    also have "\<dots> = lu_col_pure (Suc hi) k A"
      unfolding F_def dot_acc_minus[OF kh le_refl] Let_def
      using True by (intro ext) (auto simp: less_Suc_eq lu_col_pure_def)
    finally show ?thesis .
  next
    case False
    then show ?thesis by (auto simp: fun_eq_iff lu_col_pure_def)
  qed
qed

lemma recon_col_fold:
  fixes A :: "real matrix"
  shows "fold (\<lambda>i A. fold (\<lambda>j A. put A i k (A i k + A i j * A j k)) [0..<k]
                        (put A i k (A i k * A k k))) [k + 1..<hi] A
         = recon_col_pure hi k A"
proof (induction hi)
  case 0
  then show ?case by (simp add: recon_col_pure_def)
next
  case (Suc hi)
  show ?case
  proof (cases "k + 1 \<le> hi")
    case True
    then have kh: "k \<le> hi" by simp
    show ?thesis
      unfolding fold_upt_Suc[OF True] Suc dot_acc_plus[OF kh le_refl]
      using True by (intro ext) (auto simp: less_Suc_eq recon_col_pure_def)
  next
    case False
    then show ?thesis by (auto simp: fun_eq_iff recon_col_pure_def)
  qed
qed

lemma lu_row_update_closed:
  fixes A :: "real matrix"
  shows "lu_row_update n k A = Some (lu_row_pure n k A)"
  unfolding lu_row_update_def lu_row_fold[symmetric]
  by (intro for_up_pure) simp

lemma lu_col_update_closed:
  fixes A :: "real matrix"
  shows "lu_col_update n k A = Some (lu_col_pure n k A)"
  unfolding lu_col_update_def lu_col_fold[symmetric]
  by (intro for_up_pure) (simp add: for_up_pure[where f = "\<lambda>j A. put A _ k (A _ k - A _ j * A j k)"] Let_def)

lemma recon_row_restore_closed:
  fixes A :: "real matrix"
  shows "recon_row_restore n k A = Some (recon_row_pure n k A)"
  unfolding recon_row_restore_def recon_row_fold[symmetric]
  by (intro for_up_pure) simp

lemma recon_col_restore_closed:
  fixes A :: "real matrix"
  shows "recon_col_restore n k A = Some (recon_col_pure n k A)"
  unfolding recon_col_restore_def recon_col_fold[symmetric]
  by (intro for_up_pure) (simp add: for_up_pure[where f = "\<lambda>j A. put A _ k (A _ k + A _ j * A j k)"] Let_def)

lemma lu_step_closed:
  fixes A :: "real matrix"
  shows "lu_step n k A = Some (lu_col_pure n k (lu_row_pure n k A))"
  by (simp add: lu_step_def lu_row_update_closed lu_col_update_closed)

lemma recon_step_closed:
  fixes A :: "real matrix"
  shows "recon_step n k A = Some (recon_row_pure n k (recon_col_pure n k A))"
  by (simp add: recon_step_def recon_row_restore_closed recon_col_restore_closed)

section \<open>Right-looking elimination factorises\<close>

lemma ginv_init: "ginv n 0 A A"
  by (simp add: ginv_def)

lemma ginv_step:
  assumes inv: "ginv n k T A" and k: "k < n" and piv: "k + 1 < n \<Longrightarrow> A k k \<noteq> 0"
  shows "ginv n (k + 1) T (elim_rows n n k A)"
  unfolding ginv_def
proof (intro allI impI)
  fix i j assume i: "i < n" and j: "j < n"
  let ?A = "elim_rows n n k A"
  have old: "T i j = (if j < k \<and> j < i then (\<Sum>p<j. A i p * A p j) + A i j * A j j
       else (\<Sum>p<min i k. A i p * A p j) + A i j)"
    using inv i j by (simp add: ginv_def)
  show "T i j = (if j < k + 1 \<and> j < i then (\<Sum>p<j. ?A i p * ?A p j) + ?A i j * ?A j j
       else (\<Sum>p<min i (k + 1). ?A i p * ?A p j) + ?A i j)"
  proof (cases "i \<le> k")
    case True
    then have "min i (k + 1) = min i k" by simp
    moreover have "(\<Sum>p<m. ?A i p * ?A p j) = (\<Sum>p<m. A i p * A p j)" if "m \<le> i" for m
      using True that by (intro sum.cong) (simp_all add: elim_rows_upper)
    moreover have "?A i j = A i j" "j < i \<Longrightarrow> ?A j j = A j j"
      using True by (simp_all add: elim_rows_upper)
    ultimately show ?thesis using True old by auto
  next
    case False
    then have ki: "k < i" by simp
    then have kn: "k + 1 < n" using i by simp
    have d: "A k k \<noteq> 0" using piv kn by simp
    have pre: "(\<Sum>p<m. ?A i p * ?A p j) = (\<Sum>p<m. A i p * A p j)" if "m \<le> k" for m
      using that by (intro sum.cong) (simp_all add: elim_rows_upper elim_rows_left)
    show ?thesis
    proof (cases "j < k")
      case True
      then show ?thesis using old ki pre[of j]
        by (simp add: elim_rows_left elim_rows_upper)
    next
      case False
      note jk = this
      show ?thesis
      proof (cases "j = k")
        case True
        have "?A i k = A i k / A k k" "?A k k = A k k"
          using ki i by (simp_all add: elim_rows_def)
        then show ?thesis using old ki True pre[of k] d by simp
      next
        case False
        then have kj: "k < j" using jk by simp
        have "?A i j = A i j - A i k / A k k * A k j" "?A i k = A i k / A k k" "?A k j = A k j"
          using ki kj i j by (simp_all add: elim_rows_def)
        moreover have "min i (k + 1) = Suc k" "min i k = k" using ki by simp_all
        ultimately show ?thesis using old ki kj pre[of k] by simp
      qed
    qed
  qed
qed

text \<open>Row swaps below the eliminated block keep the invariant, for the permuted target.\<close>

lemma swap_rows_apply:
  "swap_rows hi k m A i j =
     (if j < hi then (if i = k then A m j else if i = m then A k j else A i j) else A i j)"
  by (simp add: swap_rows_def)

lemma ginv_swap:
  assumes inv: "ginv n k T A" and k: "k < n" and m: "k \<le> m" "m < n"
  shows "ginv n k (\<lambda>i. T (if i = k then m else if i = m then k else i)) (swap_rows n k m A)"
  unfolding ginv_def
proof (intro allI impI)
  fix i j assume i: "i < n" and j: "j < n"
  let ?A = "swap_rows n k m A"
  let ?s = "if i = k then m else if i = m then k else i"
  have s: "?s < n" "k \<le> i \<Longrightarrow> k \<le> ?s" "i < k \<Longrightarrow> ?s = i" using i k m by auto
  have row: "?A i c = A ?s c" if "c < n" for c
    using that by (simp add: swap_rows_def)
  have low: "?A p c = A p c" if "p < k" for p c
    using that m by (simp add: swap_rows_def)
  have old: "T ?s j = (if j < k \<and> j < ?s then (\<Sum>p<j. A ?s p * A p j) + A ?s j * A j j
       else (\<Sum>p<min ?s k. A ?s p * A p j) + A ?s j)"
    using inv s(1) j unfolding ginv_def by blast
  have pre: "(\<Sum>p<c. ?A i p * ?A p j) = (\<Sum>p<c. A ?s p * A p j)" if "c \<le> k" for c
  proof (intro sum.cong refl)
    fix p assume "p \<in> {..<c}"
    then have "p < k" "p < n" using that k by auto
    then show "?A i p * ?A p j = A ?s p * A p j" using row[of p] low[of p j] by simp
  qed
  have mn: "min ?s k = min i k" using s(2,3) by (cases "i < k") auto
  have lt: "j < k \<Longrightarrow> (j < ?s) = (j < i)" using s(2,3) by (cases "i < k") auto
  show "T ?s j = (if j < k \<and> j < i then (\<Sum>p<j. ?A i p * ?A p j) + ?A i j * ?A j j
       else (\<Sum>p<min i k. ?A i p * ?A p j) + ?A i j)"
  proof (cases "j < k \<and> j < i")
    case True
    then have "?A j j = A j j" using low[of j j] by simp
    then show ?thesis using True old lt pre[of j] row[OF j] by simp
  next
    case False
    then show ?thesis using old lt mn pre[of "min i k"] row[OF j] by auto
  qed
qed

subsection \<open>The factorisation equations as a matrix product\<close>

lemma sum_L_of:
  assumes "i < n"
  shows "(\<Sum>p<n. L_of A i p * f p) = (\<Sum>p<i. A i p * f p) + f i"
proof -
  have "(\<Sum>p<n. L_of A i p * f p) = (\<Sum>p<Suc i. L_of A i p * f p)"
    using assms by (intro sum.mono_neutral_right) (auto simp: L_of_def)
  also have "\<dots> = (\<Sum>p<i. A i p * f p) + f i"
    by (simp add: L_of_def)
  finally show ?thesis .
qed

lemma sum_U_of:
  assumes "p < n"
  shows "(\<Sum>j<n. U_of A p j * x j) = (\<Sum>j\<in>{p..<n}. A p j * x j)"
proof -
  have "(\<Sum>j<n. U_of A p j * x j) = (\<Sum>j\<in>{p..<n}. U_of A p j * x j)"
    using assms by (intro sum.mono_neutral_right) (auto simp: U_of_def)
  also have "\<dots> = (\<Sum>j\<in>{p..<n}. A p j * x j)"
    by (intro sum.cong) (simp_all add: U_of_def)
  finally show ?thesis .
qed

lemma sum_U_of_col:
  assumes "j < i"
  shows "(\<Sum>p<i. A i p * U_of A p j) = (\<Sum>p<j. A i p * A p j) + A i j * A j j"
proof -
  have "(\<Sum>p<i. A i p * U_of A p j) = (\<Sum>p<Suc j. A i p * U_of A p j)"
    using assms by (intro sum.mono_neutral_right) (auto simp: U_of_def)
  also have "\<dots> = (\<Sum>p<j. A i p * A p j) + A i j * A j j"
    by (simp add: U_of_def)
  finally show ?thesis .
qed

lemma mat_mul_LU:
  assumes "i < n" "j < n"
  shows "mat_mul n (L_of A) (U_of A) i j =
     (if j < i then (\<Sum>p<j. A i p * A p j) + A i j * A j j
      else (\<Sum>p<i. A i p * A p j) + A i j)"
proof (cases "j < i")
  case True
  then show ?thesis
    unfolding mat_mul_def sum_L_of[OF assms(1)] sum_U_of_col[OF True]
    by (simp add: U_of_def)
next
  case False
  then have "(\<Sum>p<i. A i p * U_of A p j) = (\<Sum>p<i. A i p * A p j)"
    by (intro sum.cong) (simp_all add: U_of_def)
  then show ?thesis using False
    unfolding mat_mul_def sum_L_of[OF assms(1)]
    by (simp add: U_of_def)
qed

lemma ginv_final:
  assumes "ginv n n T A" "i < n" "j < n"
  shows "T i j = mat_mul n (L_of A) (U_of A) i j"
  using assms unfolding mat_mul_LU[OF assms(2,3)] ginv_def by auto

lemma ginv_lu_eqs: "ginv n n T F \<Longrightarrow> lu_eqs n T F"
  unfolding ginv_def lu_eqs_def by (auto simp: min_def)

lemma lu_eqs_mat_mul:
  "lu_eqs n T F \<Longrightarrow> i < n \<Longrightarrow> j < n \<Longrightarrow> T i j = mat_mul n (L_of F) (U_of F) i j"
  unfolding lu_eqs_def by (simp add: mat_mul_LU)

subsection \<open>Right-hand side\<close>

lemma binv_init: "binv n 0 b A b"
  by (simp add: binv_def)

lemma binv_step:
  assumes inv: "binv n k b0 A b" and k: "k < n"
  shows "binv n (k + 1) b0 (elim_rows n n k A) (elim_rhs n k A b)"
  unfolding binv_def
proof (intro allI impI)
  fix i assume i: "i < n"
  let ?A = "elim_rows n n k A" and ?b = "elim_rhs n k A b"
  have old: "b0 i = (\<Sum>p<min i k. A i p * b p) + b i"
    using inv i by (simp add: binv_def)
  have pre: "(\<Sum>p<m. ?A i p * ?b p) = (\<Sum>p<m. A i p * b p)" if "m \<le> k" for m
    using that by (intro sum.cong) (simp_all add: elim_rows_left elim_rhs_def)
  show "b0 i = (\<Sum>p<min i (k + 1). ?A i p * ?b p) + ?b i"
  proof (cases "i \<le> k")
    case True
    then have "min i (k + 1) = min i k" "?b i = b i" by (simp_all add: elim_rhs_def)
    then show ?thesis using old pre[of "min i k"] by simp
  next
    case False
    then have ki: "k < i" by simp
    have "?A i k = A i k / A k k" "?b k = b k" "?b i = b i - A i k / A k k * b k"
      using ki i by (simp_all add: elim_rows_def elim_rhs_def)
    moreover have "min i (k + 1) = Suc k" "min i k = k" using ki by simp_all
    ultimately show ?thesis using old pre[of k] by simp
  qed
qed

subsection \<open>Back-substitution\<close>

lemma back_inner_fold:
  fixes b :: "real vec"
  assumes "i < lo"
  shows "fold (\<lambda>j b. b(i := b i - A i j * b j)) [lo..<hi] b =
         b(i := b i - (\<Sum>j\<in>{lo..<hi}. A i j * b j))"
proof (induction hi)
  case 0
  then show ?case by simp
next
  case (Suc hi)
  show ?case
  proof (cases "lo \<le> hi")
    case True
    show ?thesis
      unfolding fold_upt_Suc[OF True] Suc
      using True assms by (intro ext) (auto simp: sum.atLeastLessThan_Suc)
  next
    case False
    then show ?thesis by (auto simp: fun_eq_iff)
  qed
qed

lemma gauss_back_row_closed:
  fixes b :: "real vec"
  shows "gauss_back_row n A i b = Some (back_row_pure n A i b)"
  unfolding gauss_back_row_def back_row_pure_def
  by (simp add: for_up_pure[where f = "\<lambda>j b. b(i := b i - A i j * b j)"] back_inner_fold)

lemma back_subst_solves:
  fixes y :: "real vec"
  assumes nz: "\<forall>i<n. A i i \<noteq> 0" and m: "m \<le> n"
  defines "x \<equiv> fold (back_row_pure n A) (rev [m..<n]) y"
  shows "(\<forall>i. m \<le> i \<and> i < n \<longrightarrow> (\<Sum>j\<in>{i..<n}. A i j * x j) = y i) \<and> (\<forall>i<m. x i = y i)"
  using m unfolding x_def
proof (induction "n - m" arbitrary: m)
  case 0
  then show ?case by simp
next
  case (Suc d)
  then have mn: "m < n" by simp
  define x' where "x' = fold (back_row_pure n A) (rev [Suc m..<n]) y"
  have IH: "(\<forall>i. Suc m \<le> i \<and> i < n \<longrightarrow> (\<Sum>j\<in>{i..<n}. A i j * x' j) = y i) \<and> (\<forall>i<Suc m. x' i = y i)"
    unfolding x'_def using Suc(2) mn by (intro Suc(1)) simp_all
  have x: "fold (back_row_pure n A) (rev [m..<n]) y = back_row_pure n A m x'"
    using mn by (simp add: upt_conv_Cons x'_def)
  have d: "A m m \<noteq> 0" using nz mn by simp
  have xm: "x' m = y m" using IH by simp
  show ?case unfolding x
  proof (intro conjI allI impI)
    fix i assume i: "m \<le> i \<and> i < n"
    show "(\<Sum>j\<in>{i..<n}. A i j * back_row_pure n A m x' j) = y i"
    proof (cases "i = m")
      case True
      have "(\<Sum>j\<in>{m..<n}. A m j * back_row_pure n A m x' j) =
            A m m * back_row_pure n A m x' m + (\<Sum>j\<in>{Suc m..<n}. A m j * back_row_pure n A m x' j)"
        using mn by (simp add: sum.atLeast_Suc_lessThan)
      also have "(\<Sum>j\<in>{Suc m..<n}. A m j * back_row_pure n A m x' j) = (\<Sum>j\<in>{Suc m..<n}. A m j * x' j)"
        by (intro sum.cong) (simp_all add: back_row_pure_def)
      also have "A m m * back_row_pure n A m x' m = y m - (\<Sum>j\<in>{Suc m..<n}. A m j * x' j)"
        using d xm by (simp add: back_row_pure_def)
      finally show ?thesis using True by simp
    next
      case False
      then have "Suc m \<le> i" using i by simp
      moreover have "(\<Sum>j\<in>{i..<n}. A i j * back_row_pure n A m x' j) = (\<Sum>j\<in>{i..<n}. A i j * x' j)"
        using \<open>Suc m \<le> i\<close> by (intro sum.cong) (simp_all add: back_row_pure_def)
      ultimately show ?thesis using IH i by simp
    qed
  next
    fix i assume "i < m"
    then show "back_row_pure n A m x' i = y i" using IH by (simp add: back_row_pure_def)
  qed
qed

section \<open>\<^verbatim>\<open>gauss_solve_in_place\<close> solves the system\<close>

lemma gauss_forward_closed: "gauss_forward n m s = Some (gauss_fwd_pure n m s)"
  unfolding gauss_forward_def gauss_fwd_pure_def
  by (intro for_up_pure) (auto simp: gauss_elim_step_closed)

lemma gauss_fwd_pure_0 [simp]: "gauss_fwd_pure n 0 s = s"
  by (simp add: gauss_fwd_pure_def)

lemma gauss_fwd_pure_Suc:
  "gauss_fwd_pure n (Suc m) s =
     (elim_rows n n m (fst (gauss_fwd_pure n m s)),
      elim_rhs n m (fst (gauss_fwd_pure n m s)) (snd (gauss_fwd_pure n m s)))"
  by (simp add: gauss_fwd_pure_def split_beta)

lemma gauss_pivot_closed: "gauss_pivot n A b k = Some (fst (gauss_fwd_pure n k (A, b)) k k)"
  by (simp add: gauss_pivot_def gauss_forward_closed split_beta)

lemma gauss_solve_closed:
  fixes A :: "real matrix"
  shows "gauss_solve_in_place n A b =
     Some (fst (gauss_fwd_pure n n (A, b)),
           fold (back_row_pure n (fst (gauss_fwd_pure n n (A, b)))) (rev [0..<n])
             (snd (gauss_fwd_pure n n (A, b))))"
proof -
  have bsub: "for_down (gauss_back_row n A') (int n - 1) y =
        Some (fold (back_row_pure n A') (rev [0..<n]) y)" for A' :: "real matrix" and y
    by (intro for_down_pure) (rule gauss_back_row_closed)
  show ?thesis
    unfolding gauss_solve_in_place_def gauss_forward_closed
    by (simp add: split_beta bsub)
qed

lemma gauss_fwd_row_fixed:
  "k \<le> m \<Longrightarrow> fst (gauss_fwd_pure n m s) k j = fst (gauss_fwd_pure n k s) k j"
proof (induction m)
  case 0
  then show ?case by simp
next
  case (Suc m)
  show ?case
  proof (cases "k = Suc m")
    case True
    then show ?thesis by simp
  next
    case False
    then have "k \<le> m" using Suc.prems by simp
    then show ?thesis using Suc.IH
      by (simp add: gauss_fwd_pure_Suc elim_rows_upper)
  qed
qed

lemma gauss_fwd_diag:
  "k < n \<Longrightarrow> fst (gauss_fwd_pure n n s) k k = fst (gauss_fwd_pure n k s) k k"
  by (rule gauss_fwd_row_fixed) simp

lemma gauss_fwd_frame:
  "\<not> (i < n \<and> j < n) \<Longrightarrow> fst (gauss_fwd_pure n m s) i j = fst s i j"
  by (induction m) (auto simp: gauss_fwd_pure_Suc elim_rows_def)

lemma gauss_fwd_inv:
  fixes A :: "real matrix"
  assumes "m \<le> n" "\<forall>k. k + 1 < n \<longrightarrow> fst (gauss_fwd_pure n k (A, b)) k k \<noteq> 0"
  shows "ginv n m A (fst (gauss_fwd_pure n m (A, b))) \<and>
         binv n m b (fst (gauss_fwd_pure n m (A, b))) (snd (gauss_fwd_pure n m (A, b)))"
  using assms(1)
proof (induction m)
  case 0
  then show ?case by (simp add: ginv_init binv_init)
next
  case (Suc m)
  then have m: "m < n" by simp
  have IH: "ginv n m A (fst (gauss_fwd_pure n m (A, b)))"
      "binv n m b (fst (gauss_fwd_pure n m (A, b))) (snd (gauss_fwd_pure n m (A, b)))"
    using Suc by simp_all
  show ?case
    unfolding gauss_fwd_pure_Suc fst_conv snd_conv
    using ginv_step[OF IH(1) m] binv_step[OF IH(2) m] assms(2) by simp
qed

text \<open>
  Claim C1. For every \<open>n\<close>, every matrix \<open>A\<close> and every right-hand side \<open>b\<close>, over exact
  arithmetic: if the pivot \<^verbatim>\<open>A[k][k]\<close> met at each iteration \<open>k = 0, \<dots>, n - 1\<close> of the
  elimination loop is nonzero, then \<^verbatim>\<open>gauss_solve_in_place\<close> returns, and the vector it
  leaves in \<open>b\<close> is a solution \<open>x\<close> of the original system: the original \<open>A\<close> times \<open>x\<close> is
  the original \<open>b\<close>. The pivots are those of all \<open>n\<close> iterations: the one of the last
  iteration is not a divisor of forward elimination, it is the divisor of the first step
  of back-substitution.
\<close>

theorem gauss_solve_correct:
  fixes A :: "real matrix" and b :: "real vec"
  assumes "\<forall>k<n. \<exists>p. gauss_pivot n A b k = Some p \<and> p \<noteq> 0"
  shows "\<exists>A' x. gauss_solve_in_place n A b = Some (A', x) \<and>
           (\<forall>i<n. (\<Sum>j<n. A i j * x j) = b i)"
proof -
  define A' where "A' = fst (gauss_fwd_pure n n (A, b))"
  define y where "y = snd (gauss_fwd_pure n n (A, b))"
  define x where "x = fold (back_row_pure n A') (rev [0..<n]) y"
  have piv: "\<forall>k<n. fst (gauss_fwd_pure n k (A, b)) k k \<noteq> 0"
    using assms by (simp add: gauss_pivot_closed)
  then have inv: "ginv n n A A'" "binv n n b A' y"
    using gauss_fwd_inv[of n n A b] by (simp_all add: A'_def y_def)
  have diag: "\<forall>i<n. A' i i \<noteq> 0"
    using piv gauss_fwd_row_fixed[of _ n n "(A, b)"] by (simp add: A'_def)
  have Ux: "\<forall>i<n. (\<Sum>j\<in>{i..<n}. A' i j * x j) = y i"
    using back_subst_solves[of n A' 0 y] diag by (simp add: x_def)
  have "(\<Sum>j<n. A i j * x j) = b i" if i: "i < n" for i
  proof -
    have "(\<Sum>j<n. A i j * x j) = (\<Sum>j<n. (\<Sum>p<n. L_of A' i p * U_of A' p j) * x j)"
      using ginv_final[OF inv(1) i] by (intro sum.cong) (simp_all add: mat_mul_def)
    also have "\<dots> = (\<Sum>j<n. \<Sum>p<n. L_of A' i p * (U_of A' p j * x j))"
      by (simp add: sum_distrib_right mult.assoc)
    also have "\<dots> = (\<Sum>p<n. \<Sum>j<n. L_of A' i p * (U_of A' p j * x j))"
      by (rule sum.swap)
    also have "\<dots> = (\<Sum>p<n. L_of A' i p * (\<Sum>j<n. U_of A' p j * x j))"
      by (simp add: sum_distrib_left)
    also have "\<dots> = (\<Sum>p<n. L_of A' i p * y p)"
      using Ux by (intro sum.cong) (simp_all add: sum_U_of)
    also have "\<dots> = (\<Sum>p<i. A' i p * y p) + y i"
      by (rule sum_L_of[OF i])
    also have "\<dots> = b i"
      using inv(2) i by (simp add: binv_def)
    finally show ?thesis .
  qed
  then show ?thesis
    unfolding gauss_solve_closed A'_def y_def x_def by blast
qed

text \<open>
  The pivot of the last iteration cannot be dropped from the hypothesis: on the zero
  matrix of size one no pivot is divided by during forward elimination, and the result
  does not solve the system.
\<close>

lemma gauss_last_pivot_needed:
  "\<exists>A' x. gauss_solve_in_place 1 (\<lambda>i j. 0) (\<lambda>i. 1) = Some (A', x) \<and>
     (\<Sum>j<1. (0::real) * x j) \<noteq> 1"
  by (simp add: gauss_solve_closed)

section \<open>\<^verbatim>\<open>lu_in_place\<close> factorises\<close>

lemma linv_init: "linv n 0 A A"
  by (simp add: linv_def)

lemma linv_final: "linv n n T F \<Longrightarrow> lu_eqs n T F"
  unfolding linv_def lu_eqs_def by (auto simp: min_def)

text \<open>One iteration of \<^verbatim>\<open>lu_in_place\<close>, entry by entry.\<close>

lemma lu_step_pure_apply:
  "lu_step_pure n k A i j =
     (if j = k \<and> k < i \<and> i < n then (A i k - (\<Sum>p<k. A i p * A p k)) / lu_row_pure n k A k k
      else if i = k \<and> k \<le> j \<and> j < n then A k j - (\<Sum>p<k. A k p * A p j)
      else A i j)"
proof -
  have "(\<Sum>p<k. lu_row_pure n k A i p * lu_row_pure n k A p k) = (\<Sum>p<k. A i p * A p k)" if "k < i"
    using that by (intro sum.cong) (simp_all add: lu_row_pure_def)
  then show ?thesis
    by (auto simp: lu_step_pure_def lu_col_pure_def) (simp_all add: lu_row_pure_def)
qed

lemma lu_step_pure_diag: "k < n \<Longrightarrow> lu_step_pure n k A k k = lu_row_pure n k A k k"
  by (simp add: lu_step_pure_apply lu_row_pure_def)

lemma lu_step_pure_same: "min i j \<noteq> k \<Longrightarrow> lu_step_pure n k A i j = A i j"
  by (auto simp: lu_step_pure_apply)

lemma linv_step:
  assumes inv: "linv n k T A" and k: "k < n" and d: "k + 1 < n \<Longrightarrow> lu_row_pure n k A k k \<noteq> 0"
  shows "linv n (k + 1) T (lu_step_pure n k A)"
  unfolding linv_def
proof (intro allI impI)
  fix i j assume i: "i < n" and j: "j < n"
  let ?A = "lu_step_pure n k A"
  have old: "T i j = (if min i j < k then
         (if j < i then (\<Sum>p<j. A i p * A p j) + A i j * A j j
          else (\<Sum>p<i. A i p * A p j) + A i j)
       else A i j)"
    using inv i j by (simp add: linv_def)
  have pre: "(\<Sum>p<c. ?A r p * ?A p s) = (\<Sum>p<c. A r p * A p s)" if "c \<le> k" "c \<le> r" "c \<le> s" for c r s
    using that by (intro sum.cong) (simp_all add: lu_step_pure_same)
  consider (lt) "min i j < k" | (eq) "min i j = k" | (gt) "k < min i j" by linarith
  then show "T i j = (if min i j < k + 1 then
         (if j < i then (\<Sum>p<j. ?A i p * ?A p j) + ?A i j * ?A j j
          else (\<Sum>p<i. ?A i p * ?A p j) + ?A i j)
       else ?A i j)"
  proof cases
    case lt
    then have "?A i j = A i j" by (simp add: lu_step_pure_same)
    moreover have "j < i \<Longrightarrow> ?A j j = A j j" using lt by (simp add: lu_step_pure_same)
    moreover have "j < i \<Longrightarrow> (\<Sum>p<j. ?A i p * ?A p j) = (\<Sum>p<j. A i p * A p j)"
      using lt by (intro pre) simp_all
    moreover have "\<not> j < i \<Longrightarrow> (\<Sum>p<i. ?A i p * ?A p j) = (\<Sum>p<i. A i p * A p j)"
      using lt by (intro pre) simp_all
    ultimately show ?thesis using old lt by simp
  next
    case eq
    show ?thesis
    proof (cases "j < i")
      case True
      then have jk: "j = k" using eq by simp
      then have kn: "k + 1 < n" using True i by simp
      have "?A i k = (A i k - (\<Sum>p<k. A i p * A p k)) / lu_row_pure n k A k k"
        using True jk i by (simp add: lu_step_pure_apply)
      moreover have "?A k k = lu_row_pure n k A k k" using k by (rule lu_step_pure_diag)
      moreover have "(\<Sum>p<k. ?A i p * ?A p k) = (\<Sum>p<k. A i p * A p k)"
        using True jk by (intro pre) simp_all
      ultimately show ?thesis using old eq True jk d[OF kn] by simp
    next
      case False
      then have ik: "i = k" using eq by simp
      have "?A k j = A k j - (\<Sum>p<k. A k p * A p j)"
        using False ik j by (simp add: lu_step_pure_apply)
      moreover have "(\<Sum>p<k. ?A k p * ?A p j) = (\<Sum>p<k. A k p * A p j)"
        using False ik by (intro pre) simp_all
      ultimately show ?thesis using old eq False ik by simp
    qed
  next
    case gt
    then show ?thesis using old by (simp add: lu_step_pure_same)
  qed
qed

lemma lu_pure_0 [simp]: "lu_pure n 0 A = A"
  by (simp add: lu_pure_def)

lemma lu_pure_Suc: "lu_pure n (Suc m) A = lu_step_pure n m (lu_pure n m A)"
  by (simp add: lu_pure_def)

lemma lu_step_closed': "lu_step n k A = Some (lu_step_pure n k A)"
  by (simp add: lu_step_closed lu_step_pure_def)

lemma lu_prefix_closed: "lu_prefix n m A = Some (lu_pure n m A)"
  unfolding lu_prefix_def lu_pure_def
  by (intro for_up_pure) (rule lu_step_closed')

lemma lu_in_place_closed: "lu_in_place n A = Some (lu_pure n n A)"
  by (simp add: lu_in_place_def lu_prefix_closed)

lemma lu_divisor_closed: "lu_divisor n A k = Some (lu_row_pure n k (lu_pure n k A) k k)"
  by (simp add: lu_divisor_def lu_prefix_closed lu_row_update_closed)

lemma lu_pure_inv:
  assumes "m \<le> n" "\<forall>k. k + 1 < n \<longrightarrow> lu_row_pure n k (lu_pure n k A) k k \<noteq> 0"
  shows "linv n m A (lu_pure n m A)"
  using assms(1)
proof (induction m)
  case 0
  then show ?case by (simp add: linv_init)
next
  case (Suc m)
  then have "linv n m A (lu_pure n m A)" "m < n" by simp_all
  then show ?case
    unfolding lu_pure_Suc using linv_step[of n m A "lu_pure n m A"] assms(2) by simp
qed

text \<open>
  Claim C3, amended to exact arithmetic. For every \<open>n\<close> and every matrix \<open>A\<close> over the
  reals: if each divisor \<^verbatim>\<open>A[k][k]\<close> that \<^verbatim>\<open>lu_in_place\<close> divides by is nonzero, then it
  returns a buffer \<open>F\<close> and the original matrix is \<open>L U\<close> on the \<open>n \<times> n\<close> block, with \<open>L\<close>
  unit lower triangular read from the strict lower part of \<open>F\<close> and \<open>U\<close> read from the
  diagonal of \<open>F\<close> and above. On doubles the equality does not hold (last section).
\<close>

theorem lu_in_place_correct:
  fixes A :: "real matrix"
  assumes "\<forall>k. k + 1 < n \<longrightarrow> (\<exists>d. lu_divisor n A k = Some d \<and> d \<noteq> 0)"
  shows "\<exists>F. lu_in_place n A = Some F \<and>
           (\<forall>i<n. \<forall>j<n. A i j = mat_mul n (L_of F) (U_of F) i j)"
proof -
  have "\<forall>k. k + 1 < n \<longrightarrow> lu_row_pure n k (lu_pure n k A) k k \<noteq> 0"
    using assms by (simp add: lu_divisor_closed)
  then have "linv n n A (lu_pure n n A)"
    by (intro lu_pure_inv) simp_all
  then have "lu_eqs n A (lu_pure n n A)" by (rule linv_final)
  then show ?thesis
    unfolding lu_in_place_closed using lu_eqs_mat_mul by blast
qed

section \<open>Reconstruction undoes factorisation\<close>

lemma recon_undoes_lu_step:
  assumes d: "k + 1 < n \<Longrightarrow> lu_row_pure n k A k k \<noteq> 0"
  shows "recon_step_pure n k (lu_step_pure n k A) = A"
proof -
  let ?A1 = "lu_row_pure n k A"
  let ?A2 = "lu_col_pure n k ?A1"
  have B1: "recon_col_pure n k ?A2 = ?A1"
  proof (intro ext)
    fix i j
    show "recon_col_pure n k ?A2 i j = ?A1 i j"
    proof (cases "j = k \<and> k < i \<and> i < n")
      case True
      then have kn: "k + 1 < n" by simp
      have s: "(\<Sum>p<k. ?A2 i p * ?A2 p k) = (\<Sum>p<k. ?A1 i p * ?A1 p k)"
        by (intro sum.cong) (simp_all add: lu_col_pure_def)
      have "?A2 k k = ?A1 k k" by (simp add: lu_col_pure_def)
      moreover have "?A2 i k = (?A1 i k - (\<Sum>p<k. ?A1 i p * ?A1 p k)) / ?A1 k k"
        using True by (simp add: lu_col_pure_def)
      ultimately show ?thesis using True d[OF kn] s
        by (simp add: recon_col_pure_def)
    next
      case False
      then show ?thesis by (auto simp: recon_col_pure_def lu_col_pure_def)
    qed
  qed
  have B2: "recon_row_pure n k ?A1 = A"
  proof (intro ext)
    fix i j
    have s: "(\<Sum>p<k. ?A1 k p * ?A1 p j) = (\<Sum>p<k. A k p * A p j)"
      by (intro sum.cong) (simp_all add: lu_row_pure_def)
    show "recon_row_pure n k ?A1 i j = A i j"
      unfolding recon_row_pure_def s by (simp add: lu_row_pure_def)
  qed
  show ?thesis
    unfolding recon_step_pure_def lu_step_pure_def B1 B2 ..
qed

lemma recon_undoes_lu:
  assumes "\<forall>k. k + 1 < n \<longrightarrow> lu_row_pure n k (lu_pure n k A) k k \<noteq> 0"
  shows "recon_pure n m (lu_pure n m A) = A"
proof (induction m)
  case 0
  then show ?case by (simp add: recon_pure_def)
next
  case (Suc m)
  have "recon_pure n (Suc m) (lu_pure n (Suc m) A) =
        recon_pure n m (recon_step_pure n m (lu_step_pure n m (lu_pure n m A)))"
    by (simp add: recon_pure_def lu_pure_Suc)
  also have "recon_step_pure n m (lu_step_pure n m (lu_pure n m A)) = lu_pure n m A"
    using assms by (intro recon_undoes_lu_step) simp
  finally show ?case using Suc by simp
qed

lemma lu_in_place_reconstruct_closed: "lu_in_place_reconstruct n A = Some (recon_pure n n A)"
  unfolding lu_in_place_reconstruct_def recon_pure_def
  by (intro for_down_pure) (simp add: recon_step_closed recon_step_pure_def)

text \<open>
  Claim C4, amended to exact arithmetic. For every \<open>n\<close> and every matrix \<open>A\<close> over the
  reals: if each divisor of \<^verbatim>\<open>lu_in_place\<close> is nonzero, then \<^verbatim>\<open>lu_in_place\<close> followed by
  \<^verbatim>\<open>lu_in_place_reconstruct\<close> on the same buffer returns the original buffer, every
  entry restored. On doubles the round trip can end at Frobenius distance 1 from the
  original (last section).
\<close>

theorem lu_round_trip:
  fixes A :: "real matrix"
  assumes "\<forall>k. k + 1 < n \<longrightarrow> (\<exists>d. lu_divisor n A k = Some d \<and> d \<noteq> 0)"
  shows "\<exists>F. lu_in_place n A = Some F \<and> lu_in_place_reconstruct n F = Some A"
proof -
  have "\<forall>k. k + 1 < n \<longrightarrow> lu_row_pure n k (lu_pure n k A) k k \<noteq> 0"
    using assms by (simp add: lu_divisor_closed)
  then have "recon_pure n n (lu_pure n n A) = A" by (rule recon_undoes_lu)
  then show ?thesis
    by (simp add: lu_in_place_closed lu_in_place_reconstruct_closed)
qed

section \<open>The two elimination orders compute the same factors\<close>

text \<open>The packed factorisation is unique: \<^verbatim>\<open>lu_in_place\<close> computes any buffer that
  satisfies the factorisation equations and has nonzero divisors.\<close>

lemma lu_pure_unique:
  assumes eqs: "lu_eqs n A F" and nz: "\<forall>k. k + 1 < n \<longrightarrow> F k k \<noteq> 0"
    and m: "m \<le> n"
  shows "lu_pure n m A i j = (if i < n \<and> j < n \<and> min i j < m then F i j else A i j)"
  using m
proof (induction m arbitrary: i j)
  case 0
  then show ?case by simp
next
  case (Suc m)
  then have m: "m < n" by simp
  let ?X = "lu_pure n m A"
  have X: "?X i j = (if i < n \<and> j < n \<and> min i j < m then F i j else A i j)" for i j
    using Suc by simp
  have row: "(\<Sum>p<m. ?X m p * ?X p c) = (\<Sum>p<m. F m p * F p c)" if "m \<le> c" "c < n" for c
    using that m by (intro sum.cong) (simp_all add: X)
  have col: "(\<Sum>p<m. ?X r p * ?X p m) = (\<Sum>p<m. F r p * F p m)" if "m \<le> r" "r < n" for r
    using that m by (intro sum.cong) (simp_all add: X)
  have Frow: "A m c = (\<Sum>p<m. F m p * F p c) + F m c" if "m \<le> c" "c < n" for c
    using eqs that m unfolding lu_eqs_def by auto
  have Fcol: "A r m = (\<Sum>p<m. F r p * F p m) + F r m * F m m" if "m < r" "r < n" for r
    using eqs that m unfolding lu_eqs_def by auto
  have diag: "lu_row_pure n m ?X m m = F m m"
    using m row[of m] Frow[of m] by (simp add: lu_row_pure_def X)
  show ?case
  proof (cases "j = m \<and> m < i \<and> i < n")
    case True
    then have "m + 1 < n" by simp
    then have "F m m \<noteq> 0" using nz by simp
    then show ?thesis
      using True m col[of i] Fcol[of i] diag
      by (simp add: lu_pure_Suc lu_step_pure_apply X)
  next
    case False
    note nc = this
    show ?thesis
    proof (cases "i = m \<and> m \<le> j \<and> j < n")
      case True
      then show ?thesis
        using m row[of j] Frow[of j]
        by (simp add: lu_pure_Suc lu_step_pure_apply X)
    next
      case False
      then have "min i j \<noteq> m \<or> \<not> (i < n \<and> j < n)" using nc by (auto simp: min_def)
      then show ?thesis using nc False
        by (auto simp: lu_pure_Suc lu_step_pure_apply X)
    qed
  qed
qed

text \<open>
  Claim C10. For every \<open>n\<close>, every matrix \<open>A\<close> and every \<open>b\<close>, over exact arithmetic: if
  the pivots that forward elimination divides by are nonzero, then the buffer \<open>A\<close> after
  \<^verbatim>\<open>gauss_solve_in_place\<close> is the buffer that \<^verbatim>\<open>lu_in_place\<close> returns on the same
  \<open>A\<close>, and it is the buffer that forward elimination left: back-substitution does not
  write to \<open>A\<close>. The hypothesis asks for the pivots of the iterations \<open>k\<close> with
  \<open>k + 1 < n\<close> only, so it holds whenever all pivots are nonzero.
\<close>

theorem gauss_matches_lu:
  fixes A :: "real matrix" and b :: "real vec"
  assumes "\<forall>k. k + 1 < n \<longrightarrow> (\<exists>p. gauss_pivot n A b k = Some p \<and> p \<noteq> 0)"
  shows "\<exists>F y x. gauss_forward n n (A, b) = Some (F, y) \<and>
           gauss_solve_in_place n A b = Some (F, x) \<and>
           lu_in_place n A = Some F"
proof -
  define F where "F = fst (gauss_fwd_pure n n (A, b))"
  have piv: "\<forall>k. k + 1 < n \<longrightarrow> fst (gauss_fwd_pure n k (A, b)) k k \<noteq> 0"
    using assms by (simp add: gauss_pivot_closed)
  then have "ginv n n A F"
    using gauss_fwd_inv[of n n A b] by (simp add: F_def)
  then have eqs: "lu_eqs n A F" by (rule ginv_lu_eqs)
  have nz: "\<forall>k. k + 1 < n \<longrightarrow> F k k \<noteq> 0"
    using piv by (simp add: F_def gauss_fwd_diag)
  have frame: "F i j = A i j" if "\<not> (i < n \<and> j < n)" for i j
    using gauss_fwd_frame[OF that, of n "(A, b)"] by (simp add: F_def)
  have "lu_pure n n A = F"
  proof (intro ext)
    fix i j
    show "lu_pure n n A i j = F i j"
      using lu_pure_unique[OF eqs nz le_refl, of i j] frame[of i j] by (auto simp: min_def)
  qed
  moreover have "gauss_fwd_pure n n (A, b) = (F, snd (gauss_fwd_pure n n (A, b)))"
    by (simp add: F_def)
  ultimately show ?thesis
    unfolding lu_in_place_closed gauss_solve_closed gauss_forward_closed F_def[symmetric]
    by blast
qed

section \<open>\<^verbatim>\<open>plu\<close>\<close>

subsection \<open>Closed forms\<close>

lemma plu_max_row_closed: "plu_max_row n k A = Some (max_row_pure n k A)"
  unfolding plu_max_row_def max_row_pure_def by (intro for_up_pure) simp

lemma max_row_pure_Suc:
  "k + 1 \<le> hi \<Longrightarrow> max_row_pure (Suc hi) k A =
     (if \<bar>A hi k\<bar> > \<bar>A (max_row_pure hi k A) k\<bar> then hi else max_row_pure hi k A)"
  by (simp add: max_row_pure_def)

lemma max_row_pure_base: "hi \<le> k + 1 \<Longrightarrow> max_row_pure hi k A = k"
  by (simp add: max_row_pure_def)

lemma max_row_pure_range: "k \<le> max_row_pure hi k A \<and> (max_row_pure hi k A = k \<or> max_row_pure hi k A < hi)"
proof (induction hi)
  case 0
  then show ?case by (simp add: max_row_pure_base)
next
  case (Suc hi)
  show ?case
  proof (cases "k + 1 \<le> hi")
    case True
    then show ?thesis using Suc by (auto simp: max_row_pure_Suc)
  next
    case False
    then show ?thesis by (simp add: max_row_pure_base)
  qed
qed

lemma max_row_pure_bounds: "k < n \<Longrightarrow> k \<le> max_row_pure n k A \<and> max_row_pure n k A < n"
  using max_row_pure_range[of k n A] by auto



lemma swap_rows_fold:
  "fold (\<lambda>j A. let temp = A k j; A = put A k j (A m j); A = put A m j temp in A) [0..<hi] A
     = swap_rows hi k m A"
proof (induction hi)
  case 0
  then show ?case by (simp add: swap_rows_def)
next
  case (Suc hi)
  show ?case
    unfolding fold_upt_Suc[OF le0] Suc
    by (intro ext) (auto simp: swap_rows_def Let_def less_Suc_eq)
qed

lemma swap_rows_same [simp]: "swap_rows n k k A = A"
  by (auto simp: swap_rows_def fun_eq_iff)

lemma swap_perm_same [simp]: "swap_perm k k P = P"
  by (auto simp: swap_perm_def)

lemma plu_swap_closed: "plu_swap n k m (A, P) = Some (swap_rows n k m A, swap_perm k m P)"
  unfolding plu_swap_def swap_perm_def swap_rows_fold[symmetric]
  by (simp add: for_up_pure[where f = "\<lambda>j A. let temp = A k j; A = put A k j (A m j); A = put A m j temp in A"])

lemma plu_pivot_closed:
  "plu_pivot n k (A, P) =
     Some (swap_rows n k (max_row_pure n k A) A, swap_perm k (max_row_pure n k A) P)"
  by (simp add: plu_pivot_def plu_max_row_closed plu_swap_closed)

lemma plu_step_closed: "plu_step n k s = Some (plu_step_pure n k s)"
  by (cases s) (simp add: plu_step_def plu_pivot_closed plu_eliminate_closed plu_step_pure_def)

lemma init_perm_fold: "fold (\<lambda>i P. P(i := i)) [0..<hi] P = init_perm hi P"
proof (induction hi)
  case 0
  then show ?case by (simp add: init_perm_def)
next
  case (Suc hi)
  show ?case
    unfolding fold_upt_Suc[OF le0] Suc
    by (intro ext) (auto simp: init_perm_def)
qed

lemma plu_init_closed: "plu_init n P = Some (init_perm n P)"
  unfolding plu_init_def init_perm_fold[symmetric] by (intro for_up_pure) simp

lemma plu_prefix_closed: "plu_prefix n m A P = Some (plu_pure n m A P)"
proof -
  have "for_up (plu_step n) 0 m s = Some (fold (plu_step_pure n) [0..<m] s)" for s
    by (intro for_up_pure) (rule plu_step_closed)
  then show ?thesis by (simp add: plu_prefix_def plu_init_closed plu_pure_def)
qed

lemma plu_closed: "plu n A P = Some (plu_pure n n A P)"
  by (simp add: plu_def plu_prefix_closed)

lemma plu_pure_0 [simp]: "plu_pure n 0 A P = (A, init_perm n P)"
  by (simp add: plu_pure_def)

lemma plu_pure_Suc: "plu_pure n (Suc m) A P = plu_step_pure n m (plu_pure n m A P)"
  by (simp add: plu_pure_def)

lemma plu_divisor_closed:
  "plu_divisor n A P k =
     Some (swap_rows n k (max_row_pure n k (fst (plu_pure n k A P))) (fst (plu_pure n k A P)) k k)"
  by (cases "plu_pure n k A P") (simp add: plu_divisor_def plu_prefix_closed plu_pivot_closed)

subsection \<open>The permutation\<close>

lemma swap_perm_bij:
  assumes "bij_betw P {..<n} {..<n}" "k < n" "m < n"
  shows "bij_betw (swap_perm k m P) {..<n} {..<n}"
proof -
  let ?s = "\<lambda>i. if i = k then m else if i = m then k else i"
  have "bij_betw ?s {..<n} {..<n}"
    using assms(2,3) by (intro bij_betw_byWitness[where f' = ?s]) auto
  then have "bij_betw (P \<circ> ?s) {..<n} {..<n}"
    using assms(1) by (rule bij_betw_trans)
  moreover have "swap_perm k m P = P \<circ> ?s"
    by (auto simp: swap_perm_def fun_eq_iff)
  ultimately show ?thesis by simp
qed

lemma init_perm_bij: "bij_betw (init_perm n P) {..<n} {..<n}"
  by (intro bij_betw_byWitness[where f' = id]) (auto simp: init_perm_def)

lemma plu_pure_bij: "m \<le> n \<Longrightarrow> bij_betw (snd (plu_pure n m A P)) {..<n} {..<n}"
proof (induction m)
  case 0
  then show ?case by (simp add: init_perm_bij)
next
  case (Suc m)
  then have "m < n" and IH: "bij_betw (snd (plu_pure n m A P)) {..<n} {..<n}" by simp_all
  then show ?case
    using max_row_pure_bounds[of m n "fst (plu_pure n m A P)"]
    by (simp add: plu_pure_Suc plu_step_pure_def split_beta swap_perm_bij)
qed

text \<open>
  Claim C5. For every \<open>n\<close>, every matrix \<open>A\<close> (singular or not, over any arithmetic) and
  every initial content of \<open>P\<close>: \<^verbatim>\<open>plu\<close> returns, and the array \<open>P\<close> it leaves is a
  bijection on \<open>{0, \<dots>, n - 1}\<close>.
\<close>

theorem plu_permutation:
  fixes A :: "('a::{plus,minus,times,inverse,abs,ord}) matrix"
  shows "\<exists>A' P'. plu n A P = Some (A', P') \<and> bij_betw P' {..<n} {..<n}"
proof -
  have "bij_betw (snd (plu_pure n n A P)) {..<n} {..<n}"
    by (rule plu_pure_bij) simp
  then show ?thesis
    unfolding plu_closed by (metis prod.collapse)
qed

subsection \<open>Pivot selection\<close>


subsection \<open>\<^verbatim>\<open>plu\<close> factorises the permuted matrix\<close>

lemma plu_pure_inv:
  fixes A :: "real matrix"
  assumes "m \<le> n"
    and "\<forall>k. k + 1 < n \<longrightarrow>
       swap_rows n k (max_row_pure n k (fst (plu_pure n k A P))) (fst (plu_pure n k A P)) k k \<noteq> 0"
  shows "ginv n m (\<lambda>i. A (snd (plu_pure n m A P) i)) (fst (plu_pure n m A P))"
  using assms(1)
proof (induction m)
  case 0
  have "ginv n 0 (\<lambda>i. A (init_perm n P i)) A"
    by (simp add: ginv_def init_perm_def)
  then show ?case by simp
next
  case (Suc m)
  then have m: "m < n" by simp
  define F where "F = fst (plu_pure n m A P)"
  define Q where "Q = snd (plu_pure n m A P)"
  define r where "r = max_row_pure n m F"
  have IH: "ginv n m (\<lambda>i. A (Q i)) F" using Suc by (simp add: F_def Q_def)
  have r: "m \<le> r" "r < n" using max_row_pure_bounds[OF m, of F] by (simp_all add: r_def)
  have "ginv n m (\<lambda>i. A (Q (if i = m then r else if i = r then m else i))) (swap_rows n m r F)"
    using ginv_swap[OF IH m r] by simp
  moreover have "(\<lambda>i. A (Q (if i = m then r else if i = r then m else i))) = (\<lambda>i. A (swap_perm m r Q i))"
    by (auto simp: swap_perm_def fun_eq_iff)
  ultimately have sw: "ginv n m (\<lambda>i. A (swap_perm m r Q i)) (swap_rows n m r F)" by simp
  have d: "m + 1 < n \<Longrightarrow> swap_rows n m r F m m \<noteq> 0"
    using assms(2) by (simp add: F_def r_def)
  have "ginv n (m + 1) (\<lambda>i. A (swap_perm m r Q i)) (elim_rows n n m (swap_rows n m r F))"
    using sw m d by (rule ginv_step)
  then show ?case
    by (simp add: plu_pure_Suc plu_step_pure_def split_beta F_def Q_def r_def)
qed

text \<open>
  Claim C2, amended to exact arithmetic. For every \<open>n\<close>, every matrix \<open>A\<close> over the reals
  and every initial content of \<open>P\<close>: if each divisor \<^verbatim>\<open>A[k][k]\<close> that \<^verbatim>\<open>plu\<close> divides by
  is nonzero, then \<^verbatim>\<open>plu\<close> returns a buffer \<open>F\<close> and a permutation \<open>P'\<close> with
  \<open>A_original[P'[i]][j] = (L U)[i][j]\<close> for all \<open>i, j < n\<close>, where \<open>L\<close> and \<open>U\<close> are read
  from \<open>F\<close>. On doubles the equality does not hold (last section).
\<close>

theorem plu_correct:
  fixes A :: "real matrix"
  assumes "\<forall>k. k + 1 < n \<longrightarrow> (\<exists>d. plu_divisor n A P k = Some d \<and> d \<noteq> 0)"
  shows "\<exists>F P'. plu n A P = Some (F, P') \<and>
           (\<forall>i<n. \<forall>j<n. A (P' i) j = mat_mul n (L_of F) (U_of F) i j)"
proof -
  have "ginv n n (\<lambda>i. A (snd (plu_pure n n A P) i)) (fst (plu_pure n n A P))"
    using assms by (intro plu_pure_inv) (simp_all add: plu_divisor_closed)
  then have "\<forall>i<n. \<forall>j<n. A (snd (plu_pure n n A P) i) j =
       mat_mul n (L_of (fst (plu_pure n n A P))) (U_of (fst (plu_pure n n A P))) i j"
    using ginv_final by blast
  then show ?thesis
    unfolding plu_closed by (metis prod.collapse)
qed

subsection \<open>A zero column\<close>

lemma max_row_zero_column:
  fixes A :: "dbl matrix"
  assumes "\<forall>i<n. A i 0 = Fin 0"
  shows "hi \<le> n \<Longrightarrow> max_row_pure hi 0 A = 0"
proof (induction hi)
  case 0
  then show ?case by (simp add: max_row_pure_base)
next
  case (Suc hi)
  show ?case
  proof (cases "0 + 1 \<le> hi")
    case True
    have "max_row_pure hi 0 A = 0" using Suc by simp
    moreover have "A hi 0 = Fin 0" "A 0 0 = Fin 0" using assms Suc.prems by simp_all
    ultimately show ?thesis using max_row_pure_Suc[OF True, of A] by simp
  next
    case False
    then show ?thesis by (simp add: max_row_pure_base)
  qed
qed

lemma plu_pure_keeps_nan:
  fixes A :: "dbl matrix"
  assumes "1 \<le> m" "m \<le> n" "\<exists>i<n. fst (plu_pure n 1 A P) i 0 = NaN"
  shows "\<exists>i<n. fst (plu_pure n m A P) i 0 = NaN"
  using assms(1,2)
proof (induction m)
  case 0
  then show ?case by simp
next
  case (Suc m)
  show ?case
  proof (cases "m = 0")
    case True
    then show ?thesis using assms(3) by simp
  next
    case False
    then have m: "1 \<le> m" "m < n" using Suc.prems by simp_all
    define F where "F = fst (plu_pure n m A P)"
    define r where "r = max_row_pure n m F"
    obtain i where i: "i < n" "F i 0 = NaN" using Suc.IH m by (auto simp: F_def)
    have r: "m \<le> r" "r < n" using max_row_pure_bounds[OF m(2), of F] by (simp_all add: r_def)
    define i' where "i' = (if i = m then r else if i = r then m else i)"
    have "i' < n" using i(1) r m by (simp add: i'_def)
    moreover have "swap_rows n m r F i' 0 = NaN"
      using i m r by (auto simp: swap_rows_def i'_def)
    then have "elim_rows n n m (swap_rows n m r F) i' 0 = NaN"
      using m by (simp add: elim_rows_left)
    ultimately show ?thesis
      by (auto simp: plu_pure_Suc plu_step_pure_def split_beta F_def r_def)
  qed
qed

text \<open>
  Claim C7. For every \<open>n \<ge> 2\<close> and every matrix \<open>A\<close> of \<^verbatim>\<open>double\<close>s whose column 0 is
  zero: \<^verbatim>\<open>plu\<close> returns (its result carries no error), and the matrix it leaves has an
  entry that is not finite. The first iteration divides 0 by 0 at \<^verbatim>\<open>A[1][0]\<close>; the
  NaN is moved by later row swaps and never overwritten.
\<close>

theorem plu_zero_column:
  fixes A :: "dbl matrix"
  assumes "2 \<le> n" "\<forall>i<n. A i 0 = Fin 0"
  shows "\<exists>F P'. plu n A P = Some (F, P') \<and> (\<exists>i<n. \<exists>j<n. \<not> is_finite (F i j))"
proof -
  have n: "0 < n" "Suc 0 < n" using assms(1) by simp_all
  have mr: "max_row_pure n 0 A = 0" using assms(2) by (rule max_row_zero_column) simp
  have s1: "fst (plu_pure n (Suc 0) A P) = elim_rows n n 0 A"
    unfolding plu_pure_Suc plu_pure_0 plu_step_pure_def prod.case mr swap_rows_same by simp
  have a: "A (Suc 0) 0 = Fin 0" "A 0 0 = Fin 0" using assms(2) n by blast+
  have "elim_rows n n 0 A (Suc 0) 0 = A (Suc 0) 0 / A 0 0"
    using n by (simp add: elim_rows_def)
  then have nan: "elim_rows n n 0 A (Suc 0) 0 = NaN" unfolding a by simp
  have "\<exists>i<n. fst (plu_pure n 1 A P) i 0 = NaN"
    unfolding One_nat_def s1 using nan n by blast
  then have "\<exists>i<n. fst (plu_pure n n A P) i 0 = NaN"
    using n plu_pure_keeps_nan[of n n A P] by simp
  then obtain i where i: "i < n" "fst (plu_pure n n A P) i 0 = NaN" by blast
  have "\<not> is_finite (fst (plu_pure n n A P) i 0)" unfolding i(2) by simp
  then have "\<exists>i<n. \<exists>j<n. \<not> is_finite (fst (plu_pure n n A P) i j)"
    using i(1) n(1) by blast
  moreover have "plu_pure n n A P = (fst (plu_pure n n A P), snd (plu_pure n n A P))" by simp
  ultimately show ?thesis
    unfolding plu_closed by blast
qed

section \<open>Every kernel returns\<close>

lemma gauss_back_row_returns: "\<exists>b'. gauss_back_row n A i b = Some b'"
  by (simp add: gauss_back_row_def for_up_pure[where f = "\<lambda>j b. b(i := b i - A i j * b j)"])

lemma gauss_solve_returns: "\<exists>r. gauss_solve_in_place n A b = Some r"
proof -
  obtain b' where "for_down (gauss_back_row n (fst (gauss_fwd_pure n n (A, b)))) (int n - 1)
      (snd (gauss_fwd_pure n n (A, b))) = Some b'"
    using for_down_returns[of "gauss_back_row n (fst (gauss_fwd_pure n n (A, b)))"]
      gauss_back_row_returns by blast
  then show ?thesis
    by (simp add: gauss_solve_in_place_def gauss_forward_closed split_beta)
qed

lemma lu_row_update_returns: "\<exists>A'. lu_row_update n k A = Some A'"
  unfolding lu_row_update_def
  by (intro for_up_returns)
     (simp add: for_up_pure[where f = "\<lambda>j A. put A k _ (A k _ - A k j * A j _)"])

lemma lu_col_update_returns: "\<exists>A'. lu_col_update n k A = Some A'"
  unfolding lu_col_update_def
  by (intro for_up_returns)
     (simp add: for_up_pure[where f = "\<lambda>j A. put A _ k (A _ k - A _ j * A j k)"])

lemma lu_step_returns: "\<exists>A'. lu_step n k A = Some A'"
proof -
  obtain A1 where "lu_row_update n k A = Some A1" using lu_row_update_returns by blast
  then show ?thesis using lu_col_update_returns[of n k A1] by (simp add: lu_step_def)
qed

lemma recon_row_restore_returns: "\<exists>A'. recon_row_restore n k A = Some A'"
  unfolding recon_row_restore_def
  by (intro for_up_returns)
     (simp add: for_up_pure[where f = "\<lambda>j A. put A k _ (A k _ + A k j * A j _)"])

lemma recon_col_restore_returns: "\<exists>A'. recon_col_restore n k A = Some A'"
  unfolding recon_col_restore_def
  by (intro for_up_returns)
     (simp add: for_up_pure[where f = "\<lambda>j A. put A _ k (A _ k + A _ j * A j k)"] Let_def)

lemma recon_step_returns: "\<exists>A'. recon_step n k A = Some A'"
proof -
  obtain A1 where "recon_col_restore n k A = Some A1" using recon_col_restore_returns by blast
  then show ?thesis using recon_row_restore_returns[of n k A1] by (simp add: recon_step_def)
qed

text \<open>
  Claim C9. For every \<open>n\<close> and every content of the buffers, over any arithmetic, each of
  the four kernels returns: no loop runs forever. The result of a kernel is the updated
  buffers and nothing else; there is no error value to return.
\<close>

theorem kernels_terminate:
  fixes A :: "('a::{plus,minus,times,inverse,abs,ord}) matrix"
  shows "(\<exists>r. gauss_solve_in_place n A b = Some r) \<and>
         (\<exists>r. lu_in_place n A = Some r) \<and>
         (\<exists>r. lu_in_place_reconstruct n A = Some r) \<and>
         (\<exists>r. plu n A P = Some r)"
proof (intro conjI)
  show "\<exists>r. gauss_solve_in_place n A b = Some r" by (rule gauss_solve_returns)
  show "\<exists>r. lu_in_place n A = Some r"
    unfolding lu_in_place_def lu_prefix_def by (intro for_up_returns lu_step_returns)
  show "\<exists>r. lu_in_place_reconstruct n A = Some r"
    unfolding lu_in_place_reconstruct_def by (intro for_down_returns recon_step_returns)
  show "\<exists>r. plu n A P = Some r" by (simp add: plu_closed)
qed

section \<open>Size one\<close>

text \<open>
  Claim C8. For \<open>n = 1\<close> and a nonzero entry \<^verbatim>\<open>A[0][0]\<close>, over exact arithmetic:
  \<^verbatim>\<open>gauss_solve_in_place\<close> sets \<^verbatim>\<open>b[0]\<close> to \<^verbatim>\<open>b[0] / A[0][0]\<close>, which solves the
  system, and leaves \<open>A\<close> as it was; \<^verbatim>\<open>lu_in_place\<close> and \<^verbatim>\<open>lu_in_place_reconstruct\<close>
  leave \<open>A\<close> as it was; \<^verbatim>\<open>plu\<close> leaves \<open>A\<close> as it was and sets \<^verbatim>\<open>P[0]\<close> to 0.
\<close>

theorem kernels_at_size_one:
  fixes A :: "real matrix"
  assumes "A 0 0 \<noteq> 0"
  shows "(\<exists>x. gauss_solve_in_place 1 A b = Some (A, x) \<and> x = b(0 := b 0 / A 0 0) \<and>
              A 0 0 * x 0 = b 0) \<and>
         lu_in_place 1 A = Some A \<and>
         lu_in_place_reconstruct 1 A = Some A \<and>
         plu 1 A P = Some (A, P(0 := 0))"
proof (intro conjI)
  have e: "elim_rows (Suc 0) (Suc 0) 0 A = A" by (auto simp: elim_rows_def fun_eq_iff)
  have e': "elim_rhs (Suc 0) 0 A b = b" by (auto simp: elim_rhs_def fun_eq_iff)
  have "gauss_fwd_pure 1 1 (A, b) = (A, b)"
    by (simp add: gauss_fwd_pure_def e e')
  then have "gauss_solve_in_place 1 A b = Some (A, b(0 := b 0 / A 0 0))"
    by (simp add: gauss_solve_closed back_row_pure_def)
  then show "\<exists>x. gauss_solve_in_place 1 A b = Some (A, x) \<and> x = b(0 := b 0 / A 0 0) \<and>
              A 0 0 * x 0 = b 0"
    using assms by simp
  have "lu_pure 1 1 A = A"
    by (auto simp: lu_pure_def lu_step_pure_apply fun_eq_iff)
  then show "lu_in_place 1 A = Some A" by (simp add: lu_in_place_closed)
  have "recon_pure 1 1 A = A"
    by (auto simp: recon_pure_def recon_step_pure_def recon_row_pure_def recon_col_pure_def fun_eq_iff)
  then show "lu_in_place_reconstruct 1 A = Some A" by (simp add: lu_in_place_reconstruct_closed)
  have "plu_pure 1 1 A P = (A, P(0 := 0))"
    by (auto simp: plu_pure_def plu_step_pure_def max_row_pure_base e init_perm_def fun_eq_iff)
  then show "plu 1 A P = Some (A, P(0 := 0))" by (simp add: plu_closed)
qed

section \<open>The kernels on the inputs of the test driver\<close>

lemma all_less_3: "(\<forall>k<3::nat. Q k) \<longleftrightarrow> Q 0 \<and> Q 1 \<and> Q 2"
proof -
  have "k < 3 \<longleftrightarrow> k = 0 \<or> k = 1 \<or> k = 2" for k :: nat by arith
  then show ?thesis by auto
qed

lemma upt_3: "[0..<3] = [0, 1, 2]" "[0..<2] = [0, 1]" "[0..<1] = [0]"
  by code_simp+

lemma A_test_apply:
  "A_test i j = (if i < 3 \<and> j < 3 then [[2, 3, -1], [4, 1, 2], [-2, 7, 2]] ! i ! j else 0)"
  by (auto simp: A_test_def mat_of_def nth_Cons split: nat.splits)

lemma A_plu_apply:
  "A_plu i j = (if i < 3 \<and> j < 3 then [[2, -1, -2], [-4, 6, 3], [-4, -2, 8]] ! i ! j else 0)"
  by (auto simp: A_plu_def mat_of_def nth_Cons split: nat.splits)


subsection \<open>The system of \<^verbatim>\<open>test_gauss_solve\<close>\<close>

lemma gauss_pivot_test:
  "gauss_pivot 3 A_test b_test 0 = Some 2" "gauss_pivot 3 A_test b_test (Suc 0) = Some (- 5)"
  "gauss_pivot 3 A_test b_test 2 = Some 9"
  by (simp_all add: gauss_pivot_closed gauss_fwd_pure_def upt_3 elim_rows_def A_test_apply)

text \<open>The three pivots are 2, -5 and 9, so the kernel solves the system.\<close>

theorem gauss_solve_correct_witness:
  "\<exists>A' x. gauss_solve_in_place 3 A_test b_test = Some (A', x) \<and>
           (\<forall>i<3. (\<Sum>j<3. A_test i j * x j) = b_test i)"
proof -
  have "\<forall>k<3. \<exists>p. gauss_pivot 3 A_test b_test k = Some p \<and> p \<noteq> 0"
    by (simp add: all_less_3 gauss_pivot_test)
  then show ?thesis by (rule gauss_solve_correct)
qed

text \<open>Its buffer \<open>A\<close> ends as the one of \<^verbatim>\<open>lu_in_place\<close>.\<close>

theorem gauss_matches_lu_witness:
  "\<exists>F y x. gauss_forward 3 3 (A_test, b_test) = Some (F, y) \<and>
           gauss_solve_in_place 3 A_test b_test = Some (F, x) \<and>
           lu_in_place 3 A_test = Some F"
proof -
  have "\<forall>k. k + 1 < (3::nat) \<longrightarrow> (\<exists>p. gauss_pivot 3 A_test b_test k = Some p \<and> p \<noteq> 0)"
  proof (intro allI impI)
    fix k :: nat assume "k + 1 < 3"
    then consider "k = 0" | "k = 1" by arith
    then show "\<exists>p. gauss_pivot 3 A_test b_test k = Some p \<and> p \<noteq> 0"
      by cases (simp_all add: gauss_pivot_test)
  qed
  then show ?thesis by (rule gauss_matches_lu)
qed

subsection \<open>The matrix of \<^verbatim>\<open>test_lu_in_place\<close>\<close>

lemma lu_divisor_test:
  "lu_divisor 3 A_test 0 = Some 2" "lu_divisor 3 A_test (Suc 0) = Some (- 5)"
  by (simp_all add: lu_divisor_closed lu_pure_def upt_3 lu_row_pure_def
        lu_step_pure_apply A_test_apply)

lemma lu_divisors_test:
  "\<forall>k. k + 1 < (3::nat) \<longrightarrow> (\<exists>d. lu_divisor 3 A_test k = Some d \<and> d \<noteq> 0)"
proof (intro allI impI)
  fix k :: nat assume "k + 1 < 3"
  then consider "k = 0" | "k = 1" by arith
  then show "\<exists>d. lu_divisor 3 A_test k = Some d \<and> d \<noteq> 0"
    by cases (simp_all add: lu_divisor_test)
qed

text \<open>The divisors are 2 and -5: the factors multiply back to the matrix, and
  reconstruction restores it.\<close>

theorem lu_in_place_correct_witness:
  "\<exists>F. lu_in_place 3 A_test = Some F \<and>
       (\<forall>i<3. \<forall>j<3. A_test i j = mat_mul 3 (L_of F) (U_of F) i j)"
  using lu_divisors_test by (rule lu_in_place_correct)

theorem lu_round_trip_witness:
  "\<exists>F. lu_in_place 3 A_test = Some F \<and> lu_in_place_reconstruct 3 F = Some A_test"
  using lu_divisors_test by (rule lu_round_trip)

subsection \<open>The example of the \<^verbatim>\<open>plu\<close> driver\<close>

lemma max_row_test_0: "max_row_pure 3 0 A_plu = Suc 0"
  by (simp add: numeral_3_eq_3 max_row_pure_Suc max_row_pure_base A_plu_apply)

lemma plu_state_test_1:
  "fst (plu_pure 3 (Suc 0) A_plu id) = elim_rows 3 3 0 (swap_rows 3 0 (Suc 0) A_plu)"
  by (simp add: plu_pure_Suc plu_step_pure_def max_row_test_0)

lemma max_row_test_1:
  "max_row_pure 3 (Suc 0) (elim_rows 3 3 0 (swap_rows 3 0 (Suc 0) A_plu)) = 2"
  by (simp add: numeral_3_eq_3 max_row_pure_Suc max_row_pure_base
      elim_rows_apply swap_rows_apply A_plu_apply)

lemma plu_divisor_test:
  "plu_divisor 3 A_plu id 0 = Some (- 4)" "plu_divisor 3 A_plu id (Suc 0) = Some (- 8)"
  unfolding plu_divisor_closed plu_state_test_1 max_row_test_1 plu_pure_0 fst_conv max_row_test_0
  by (simp_all add: elim_rows_apply swap_rows_apply A_plu_apply)

text \<open>Rows 0 and 1 are swapped, then rows 1 and 2; the divisors are -4 and -8.\<close>

theorem plu_correct_witness:
  "\<exists>F P'. plu 3 A_plu id = Some (F, P') \<and>
           (\<forall>i<3. \<forall>j<3. A_plu (P' i) j = mat_mul 3 (L_of F) (U_of F) i j)"
proof -
  have "\<forall>k. k + 1 < (3::nat) \<longrightarrow> (\<exists>d. plu_divisor 3 A_plu id k = Some d \<and> d \<noteq> 0)"
  proof (intro allI impI)
    fix k :: nat assume "k + 1 < 3"
    then consider "k = 0" | "k = 1" by arith
    then show "\<exists>d. plu_divisor 3 A_plu id k = Some d \<and> d \<noteq> 0"
      by cases (simp_all add: plu_divisor_test)
  qed
  then show ?thesis by (rule plu_correct)
qed

text \<open>The array \<open>P\<close> it leaves is a permutation of 0, 1, 2.\<close>

theorem plu_permutation_witness:
  "\<exists>A' P'. plu 3 A_plu id = Some (A', P') \<and> bij_betw P' {..<3} {..<3}"
  by (rule plu_permutation)

subsection \<open>A zero on the diagonal with 5 below it\<close>


subsection \<open>A zero column\<close>

theorem plu_zero_column_witness:
  "\<exists>F P'. plu 2 A_singular id = Some (F, P') \<and> (\<exists>i<2. \<exists>j<2. \<not> is_finite (F i j))"
proof -
  have "\<forall>i<2. A_singular i 0 = Fin 0"
    by (auto simp: A_singular_def mat_of_def less_Suc_eq numeral_2_eq_2)
  then show ?thesis by (intro plu_zero_column) simp_all
qed

subsection \<open>A system of size one\<close>

theorem kernels_at_size_one_witness:
  "(\<exists>x. gauss_solve_in_place 1 A_one b_one = Some (A_one, x) \<and> x 0 = 1 / 2) \<and>
   lu_in_place 1 A_one = Some A_one \<and>
   lu_in_place_reconstruct 1 A_one = Some A_one \<and>
   plu 1 A_one id = Some (A_one, id)"
proof -
  have nz: "A_one 0 0 \<noteq> 0" by (simp add: A_one_def mat_of_def)
  have "id(0 := 0::nat) = id" by auto
  then show ?thesis
    using kernels_at_size_one[of A_one b_one id] nz
    by (auto simp: A_one_def b_one_def mat_of_def vec_of_def)
qed

subsection \<open>All four kernels return on the driver's inputs\<close>

theorem kernels_terminate_witness:
  "(\<exists>r. gauss_solve_in_place 3 A_test b_test = Some r) \<and>
   (\<exists>r. lu_in_place 3 A_test = Some r) \<and>
   (\<exists>r. lu_in_place_reconstruct 3 A_test = Some r) \<and>
   (\<exists>r. plu 3 A_plu id = Some r)"
  using kernels_terminate[of 3 A_test b_test id] kernels_terminate[of 3 A_plu b_test id]
  by blast

section \<open>The factorisations on doubles\<close>

text \<open>
  The claims C2, C3 and C4 as first stated are about the kernels as they run, on
  doubles. There the stored factors are rounded, and the claimed equalities fail.
\<close>

subsection \<open>Rounding a given number\<close>

lemma pow2_powr: "pow2 k = 2 powr (of_int k)"
proof (cases "0 \<le> k")
  case True
  then show ?thesis by (simp add: pow2_def powr_realpow[symmetric])
next
  case False
  have "(2::real) powr (of_int k) = 1 / 2 powr (- of_int k)"
    using powr_minus_divide[of 2 "- of_int k :: real"] by simp
  also have "- (of_int k :: real) = real (nat (- k))"
    using False by simp
  also have "(2::real) powr real (nat (- k)) = 2 ^ nat (- k)"
    by (simp add: powr_realpow)
  finally show ?thesis using False by (simp add: pow2_def)
qed

lemma ulp_exp_eq:
  assumes "pow2 k \<le> \<bar>x\<bar>" "\<bar>x\<bar> < pow2 (k + 1)" "- 1022 \<le> k"
  shows "ulp_exp x = k - 52"
proof -
  have "0 < pow2 k" by (simp add: pow2_def)
  then have pos: "0 < \<bar>x\<bar>" using assms(1) by linarith
  have "\<lfloor>log 2 \<bar>x\<bar>\<rfloor> = k"
    using assms(1,2) pos by (subst floor_log_eq_powr_iff) (simp_all add: pow2_powr)
  then show ?thesis using assms(3) by (simp add: ulp_exp_def)
qed

subsection \<open>The kernels at size two, for any arithmetic\<close>

lemma lu_in_place_2:
  "lu_in_place 2 A =
     Some (let A1 = put A 1 0 (A 1 0 / A 0 0) in put A1 1 1 (A1 1 1 - A1 1 0 * A1 0 1))"
  by (simp add: lu_in_place_def lu_prefix_def lu_step_def lu_row_update_def lu_col_update_def
      for_up.simps numeral_2_eq_2 Let_def)

lemma lu_divisor_2:
  "lu_divisor 2 A 0 = Some (A 0 0)"
  by (simp add: lu_divisor_def lu_prefix_def lu_row_update_def for_up.simps numeral_2_eq_2)

lemma lu_in_place_reconstruct_2:
  "lu_in_place_reconstruct 2 A =
     Some (let A1 = put A 1 1 (A 1 1 + A 1 0 * A 0 1) in put A1 1 0 (A1 1 0 * A1 0 0))"
  by (simp add: lu_in_place_reconstruct_def recon_step_def recon_col_restore_def
      recon_row_restore_def for_up.simps for_down.simps numeral_2_eq_2 Let_def)

lemma elim_rows_2:
  "elim_rows 2 2 0 A =
     (let A1 = put A 1 0 (A 1 0 / A 0 0) in put A1 1 1 (A1 1 1 - A1 1 0 * A1 0 1))"
  by (auto simp: fun_eq_iff elim_rows_apply Let_def numeral_2_eq_2 less_Suc_eq)

lemma plu_2:
  assumes "\<not> \<bar>A 1 0\<bar> > \<bar>A 0 0\<bar>"
  shows "plu 2 A P = Some (elim_rows 2 2 0 A, init_perm 2 P)"
    and "plu_divisor 2 A P 0 = Some (A 0 0)"
proof -
  have m0: "max_row_pure (Suc (Suc 0)) 0 B = (if \<bar>B 1 0\<bar> > \<bar>B 0 0\<bar> then 1 else 0)" for B :: "'a matrix"
    by (simp add: max_row_pure_Suc max_row_pure_base)
  have m1: "max_row_pure (Suc (Suc 0)) (Suc 0) B = Suc 0" for B :: "'a matrix"
    by (simp add: max_row_pure_base)
  have e1: "elim_rows (Suc (Suc 0)) (Suc (Suc 0)) (Suc 0) B = B" for B :: "'a matrix"
    by (auto simp: fun_eq_iff elim_rows_apply)
  show "plu 2 A P = Some (elim_rows 2 2 0 A, init_perm 2 P)"
    using assms
    by (simp add: plu_closed numeral_2_eq_2 plu_pure_Suc plu_step_pure_def m0 m1 e1)
  show "plu_divisor 2 A P 0 = Some (A 0 0)"
    using assms by (simp add: plu_divisor_closed numeral_2_eq_2 m0)
qed

subsection \<open>The operations of the two runs\<close>

lemma A_third_apply:
  "A_third 0 0 = F64 (Fin 3)" "A_third 0 (Suc 0) = F64 (Fin 1)"
  "A_third (Suc 0) 0 = F64 (Fin 1)" "A_third (Suc 0) (Suc 0) = F64 (Fin 1)"
  by (simp_all add: A_third_def mat_of_def)

lemma A_tiny_apply:
  "A_tiny 0 0 = F64 (Fin tiny)" "A_tiny 0 (Suc 0) = F64 (Fin 1)"
  "A_tiny (Suc 0) 0 = F64 (Fin 1)" "A_tiny (Suc 0) (Suc 0) = F64 (Fin 1)"
  by (simp_all add: A_tiny_def mat_of_def)

lemma third_ops:
  "F64 (Fin 1) / F64 (Fin 3) = F64 (Fin third)"
  "F64 (Fin third) * F64 (Fin 1) = F64 (Fin third)"
  "F64 (Fin 1) - F64 (Fin third) = F64 (Fin two_thirds)"
  by (simp_all add: third_def two_thirds_def round_real_def ulp_exp_eq[where k = "- 2"]
      ulp_exp_eq[where k = "- 1"] rne_def pow2_def Let_def max_f64_def)

lemma tiny_ops:
  "F64 (Fin 1) / F64 (Fin tiny) = F64 (Fin huge)"
  "F64 (Fin huge) * F64 (Fin 1) = F64 (Fin huge)"
  "F64 (Fin 1) - F64 (Fin huge) = F64 (Fin (- huge))"
  "F64 (Fin (- huge)) + F64 (Fin huge) = F64 (Fin 0)"
  "F64 (Fin huge) * F64 (Fin tiny) = F64 (Fin 1)"
  by (simp_all add: tiny_def huge_def round_real_def ulp_exp_eq[where k = "70"]
      ulp_exp_eq[where k = "69"] ulp_exp_eq[where k = "0"] rne_def pow2_def Let_def max_f64_def)

lemma lu_third: "lu_in_place 2 A_third = Some F_third"
  by (simp add: lu_in_place_2 Let_def A_third_apply third_ops F_third_def del: plus_f64.simps minus_f64.simps times_f64.simps divide_f64.simps)

lemma lu_tiny: "lu_in_place 2 A_tiny = Some F_tiny"
  by (simp add: lu_in_place_2 Let_def A_tiny_apply tiny_ops F_tiny_def del: plus_f64.simps minus_f64.simps times_f64.simps divide_f64.simps)

lemma recon_tiny: "lu_in_place_reconstruct 2 F_tiny = Some R_tiny"
  by (simp add: lu_in_place_reconstruct_2 Let_def F_tiny_def A_tiny_apply tiny_ops R_tiny_def del: plus_f64.simps minus_f64.simps times_f64.simps divide_f64.simps)

subsection \<open>The runs\<close>

text \<open>
  Claim C3 as stated, on doubles, fails on \<open>[[3, 1], [1, 1]]\<close>: the divisor is 3, line 48
  stores the double nearest to \<open>1/3\<close>, and the product of the stored factors at row 1,
  column 0 is \<open>3 * 6004799503160661 / 2 ^ 54\<close>, not the original entry 1.
\<close>

theorem lu_in_place_correct_counterexample:
  "lu_in_place 2 A_third = Some F_third \<and>
   lu_divisor 2 A_third 0 = Some (F64 (Fin 3)) \<and>
   mat_mul 2 (L_of (f64_reals F_third)) (U_of (f64_reals F_third)) 1 0 \<noteq> f64_real (A_third 1 0)"
  by (simp add: lu_third lu_divisor_2 A_third_apply mat_mul_LU f64_reals_def F_third_def third_def)

text \<open>
  Claim C2 as stated, on doubles, fails on the same matrix: no rows are swapped, \<open>P\<close>
  stays the identity, the buffer is the one above, and \<open>(L U)[1][0]\<close> is not
  \<open>A_original[P[1]][0]\<close>.
\<close>

theorem plu_correct_counterexample:
  "plu 2 A_third id = Some (F_third, id) \<and>
   plu_divisor 2 A_third id 0 = Some (F64 (Fin 3)) \<and>
   mat_mul 2 (L_of (f64_reals F_third)) (U_of (f64_reals F_third)) 1 0 \<noteq> f64_real (A_third (id 1) 0)"
proof -
  have c: "\<not> \<bar>A_third 1 0\<bar> > \<bar>A_third 0 0\<bar>" by (simp add: A_third_apply)
  have "elim_rows 2 2 0 A_third = F_third"
    by (simp add: elim_rows_2 Let_def A_third_apply third_ops F_third_def del: plus_f64.simps minus_f64.simps times_f64.simps divide_f64.simps)
  moreover have "init_perm 2 id = id" by (auto simp: init_perm_def)
  ultimately show ?thesis
    using plu_2[of A_third id] c
    by (simp add: A_third_apply mat_mul_LU f64_reals_def F_third_def third_def)
qed

text \<open>
  Claim C4 as stated, in floating point, fails on \<open>[[1 / 2 ^ 70, 1], [1, 1]]\<close>: the
  divisor is nonzero, line 39 rounds \<open>1 - 2 ^ 70\<close> to \<open>- (2 ^ 70)\<close>, and reconstruction
  returns \<open>[[1 / 2 ^ 70, 1], [1, 0]]\<close>, at Frobenius distance 1 from the original.
\<close>

theorem lu_round_trip_counterexample:
  "lu_in_place 2 A_tiny = Some F_tiny \<and>
   lu_divisor 2 A_tiny 0 = Some (F64 (Fin tiny)) \<and> tiny \<noteq> 0 \<and>
   lu_in_place_reconstruct 2 F_tiny = Some R_tiny \<and>
   A_tiny 1 1 = F64 (Fin 1) \<and> R_tiny 1 1 = F64 (Fin 0) \<and>
   frobenius_dist 2 (f64_reals R_tiny) (f64_reals A_tiny) = 1 \<and>
   \<not> frobenius_dist 2 (f64_reals R_tiny) (f64_reals A_tiny) < 1 / 10 ^ 6"
proof (intro conjI)
  show "lu_in_place 2 A_tiny = Some F_tiny" by (rule lu_tiny)
  show "lu_divisor 2 A_tiny 0 = Some (F64 (Fin tiny))"
    by (simp add: lu_divisor_2 A_tiny_apply)
  show "tiny \<noteq> 0" by (simp add: tiny_def)
  show "lu_in_place_reconstruct 2 F_tiny = Some R_tiny" by (rule recon_tiny)
  show "A_tiny 1 1 = F64 (Fin 1)" by (simp add: A_tiny_apply)
  show "R_tiny 1 1 = F64 (Fin 0)" by (simp add: R_tiny_def)
  have "(\<Sum>i<2. \<Sum>j<2. (f64_reals R_tiny i j - f64_reals A_tiny i j) ^ 2) = 1"
    by (simp add: numeral_2_eq_2 f64_reals_def R_tiny_def F_tiny_def A_tiny_apply)
  then show d: "frobenius_dist 2 (f64_reals R_tiny) (f64_reals A_tiny) = 1"
    by (simp add: frobenius_dist_def)
  show "\<not> frobenius_dist 2 (f64_reals R_tiny) (f64_reals A_tiny) < 1 / 10 ^ 6"
    unfolding d by simp
qed

end
